theory Spec2Isabelle
  imports Main "HOL-Library.AList"
begin

section \<open>Python strings\<close>

text \<open>
  The scanner of \<^verbatim>\<open>Week6/AuthLogScanner.py\<close> works on Python \<^verbatim>\<open>str\<close> values. A string is
  modelled as a list of \<^typ>\<open>char\<close>, one \<^typ>\<open>char\<close> per code point, so the model covers
  the code points U+0000 to U+00FF; every classification below is Python's, restricted
  to that range. The result of \<^verbatim>\<open>str.upper\<close> can leave the range (and change the length),
  so it is a list of code points.
\<close>

type_synonym codepoint = nat

definition isspace :: "char \<Rightarrow> bool" where
  \<comment> \<open>\<^verbatim>\<open>str.isspace\<close>, the set \<^verbatim>\<open>str.strip()\<close> removes and the class \<^verbatim>\<open>\s\<close> of \<^verbatim>\<open>re\<close>.\<close>
  "isspace c = (c \<in> set [CHR 0x09, CHR 0x0A, CHR 0x0B, CHR 0x0C, CHR 0x0D,
                          CHR 0x1C, CHR 0x1D, CHR 0x1E, CHR 0x1F, CHR 0x20,
                          CHR 0x85, CHR 0xA0])"

definition isdecimal :: "char \<Rightarrow> bool" where
  \<comment> \<open>The class \<^verbatim>\<open>\d\<close> of \<^verbatim>\<open>re\<close>.\<close>
  "isdecimal c = (c \<in> set ''0123456789'')"

definition lstrip :: "string \<Rightarrow> string" where
  "lstrip s = dropWhile isspace s"

definition rstrip :: "string \<Rightarrow> string" where
  "rstrip s = rev (dropWhile isspace (rev s))"

definition strip :: "string \<Rightarrow> string" where
  "strip s = lstrip (rstrip s)"

definition rstrip_chars :: "string \<Rightarrow> string \<Rightarrow> string" where
  \<comment> \<open>\<^verbatim>\<open>s.rstrip(chars)\<close>: every trailing character that occurs in \<^verbatim>\<open>chars\<close> goes.\<close>
  "rstrip_chars s chars = rev (dropWhile (\<lambda>c. c \<in> set chars) (rev s))"

definition lower_table :: "(char \<times> char) list" where
  "lower_table =
     zip ''ABCDEFGHIJKLMNOPQRSTUVWXYZ'' ''abcdefghijklmnopqrstuvwxyz'' @
     zip [CHR 0xC0, CHR 0xC1, CHR 0xC2, CHR 0xC3, CHR 0xC4, CHR 0xC5, CHR 0xC6, CHR 0xC7,
          CHR 0xC8, CHR 0xC9, CHR 0xCA, CHR 0xCB, CHR 0xCC, CHR 0xCD, CHR 0xCE, CHR 0xCF,
          CHR 0xD0, CHR 0xD1, CHR 0xD2, CHR 0xD3, CHR 0xD4, CHR 0xD5, CHR 0xD6,
          CHR 0xD8, CHR 0xD9, CHR 0xDA, CHR 0xDB, CHR 0xDC, CHR 0xDD, CHR 0xDE]
         [CHR 0xE0, CHR 0xE1, CHR 0xE2, CHR 0xE3, CHR 0xE4, CHR 0xE5, CHR 0xE6, CHR 0xE7,
          CHR 0xE8, CHR 0xE9, CHR 0xEA, CHR 0xEB, CHR 0xEC, CHR 0xED, CHR 0xEE, CHR 0xEF,
          CHR 0xF0, CHR 0xF1, CHR 0xF2, CHR 0xF3, CHR 0xF4, CHR 0xF5, CHR 0xF6,
          CHR 0xF8, CHR 0xF9, CHR 0xFA, CHR 0xFB, CHR 0xFC, CHR 0xFD, CHR 0xFE]"

definition lower :: "string \<Rightarrow> string" where
  "lower s = map (\<lambda>c. case map_of lower_table c of Some l \<Rightarrow> l | None \<Rightarrow> c) s"

definition upper_char :: "char \<Rightarrow> codepoint list" where
  \<comment> \<open>The full upper-case mapping: U+00DF gives two letters, U+00B5 and U+00FF leave the range.\<close>
  "upper_char c =
     (if c = CHR 0xDF then [0x53, 0x53]
      else if c = CHR 0xB5 then [0x39C]
      else if c = CHR 0xFF then [0x178]
      else (case map_of (map (\<lambda>(u, l). (l, u)) lower_table) c of
              Some u \<Rightarrow> [of_char u]
            | None \<Rightarrow> [of_char c]))"

definition upper :: "string \<Rightarrow> codepoint list" where
  "upper s = concat (map upper_char s)"

fun replace :: "string \<Rightarrow> string \<Rightarrow> string \<Rightarrow> string" where
  \<comment> \<open>\<^verbatim>\<open>s.replace(old, new)\<close>: the occurrences of \<^verbatim>\<open>old\<close>, left to right, without overlap.\<close>
  "replace [] old new = (if old = [] then new else [])"
| "replace (c # cs) old new =
     (if old = [] then new @ c # replace cs old new
      else if take (length old) (c # cs) = old
        then new @ replace (drop (length old) (c # cs)) old new
      else c # replace cs old new)"

definition find_str :: "string \<Rightarrow> char \<Rightarrow> nat \<Rightarrow> nat option" where
  \<comment> \<open>\<^verbatim>\<open>s.find(c, start)\<close>; \<open>None\<close> is Python's \<^verbatim>\<open>-1\<close>.\<close>
  "find_str s c start = List.find (\<lambda>i. s ! i = c) [start..<length s]"

section \<open>The two regular expressions\<close>

definition TIMESTAMP_RE :: "(char \<Rightarrow> bool) list" where
  \<comment> \<open>\<^verbatim>\<open>\d{4}-\d{2}-\d{2} \d{2}:\d{2}:\d{2}\<close>, one class for each of the 19 characters.\<close>
  "TIMESTAMP_RE =
     [isdecimal, isdecimal, isdecimal, isdecimal, (=) CHR ''-'',
      isdecimal, isdecimal, (=) CHR ''-'',
      isdecimal, isdecimal, (=) CHR '' '',
      isdecimal, isdecimal, (=) CHR '':'',
      isdecimal, isdecimal, (=) CHR '':'',
      isdecimal, isdecimal]"

definition TIMESTAMP_RE_match :: "string \<Rightarrow> bool" where
  \<comment> \<open>\<^verbatim>\<open>TIMESTAMP_RE.match(s)\<close>, anchored by \<^verbatim>\<open>^\<close> and \<^verbatim>\<open>$\<close>; the latter also matches
      before one final newline.\<close>
  "TIMESTAMP_RE_match s =
     (list_all2 (\<lambda>p c. p c) TIMESTAMP_RE (take 19 s) \<and>
      (drop 19 s = [] \<or> drop 19 s = [CHR 0x0A]))"

definition key_start :: "char \<Rightarrow> bool" where
  \<comment> \<open>\<^verbatim>\<open>[A-Za-z_]\<close>\<close>
  "key_start c = (c \<in> set ''ABCDEFGHIJKLMNOPQRSTUVWXYZabcdefghijklmnopqrstuvwxyz_'')"

definition key_char :: "char \<Rightarrow> bool" where
  \<comment> \<open>\<^verbatim>\<open>[A-Za-z0-9_\-]\<close>\<close>
  "key_char c = (key_start c \<or> c \<in> set ''0123456789-'')"

datatype grp = Dq string | Sq string | Bare string

fun quoted :: "char \<Rightarrow> string \<Rightarrow> (string \<times> string) option" where
  \<comment> \<open>\<^verbatim>\<open>(?:\\.|[^q])*q\<close> at the head of the text, for the quote \<open>q\<close>: the group's text and
      what follows the closing quote. The alternatives are tried in the order of the
      backtracking matcher: an escaped pair (the dot refuses a newline), one character
      that is not the quote, then the end of the repetition.\<close>
  "quoted q [] = None"
| "quoted q (c # t) =
     (case (case t of
              d # t' \<Rightarrow>
                if c = CHR 0x5C \<and> d \<noteq> CHR 0x0A
                then map_option (\<lambda>(v, r). (c # d # v, r)) (quoted q t')
                else None
            | [] \<Rightarrow> None) of
        Some m \<Rightarrow> Some m
      | None \<Rightarrow>
          (case (if c \<noteq> q then map_option (\<lambda>(v, r). (c # v, r)) (quoted q t) else None) of
             Some m \<Rightarrow> Some m
           | None \<Rightarrow> if c = q then Some ([], t) else None))"

definition value_at :: "string \<Rightarrow> (grp \<times> string) option" where
  \<comment> \<open>The value alternatives in their order: double-quoted, single-quoted, bareword.\<close>
  "value_at v =
     (case (case v of c # b \<Rightarrow> if c = CHR 0x22 then quoted (CHR 0x22) b else None
                    | [] \<Rightarrow> None) of
        Some (x, r) \<Rightarrow> Some (Dq x, r)
      | None \<Rightarrow>
          (case (case v of c # b \<Rightarrow> if c = CHR 0x27 then quoted (CHR 0x27) b else None
                         | [] \<Rightarrow> None) of
             Some (x, r) \<Rightarrow> Some (Sq x, r)
           | None \<Rightarrow>
               (if takeWhile (\<lambda>c. \<not> isspace c) v = [] then None
                else Some (Bare (takeWhile (\<lambda>c. \<not> isspace c) v),
                           dropWhile (\<lambda>c. \<not> isspace c) v))))"

definition TOKEN_RE_at :: "string \<Rightarrow> (string \<times> grp \<times> string) option" where
  \<comment> \<open>\<^verbatim>\<open>TOKEN_RE\<close> at the head of a text: the key, the value group that matched and the
      text after the match. The key is the longest run of key characters, since the
      \<^verbatim>\<open>=\<close> that must follow is not one of them.\<close>
  "TOKEN_RE_at t =
     (case t of
        [] \<Rightarrow> None
      | c # cs \<Rightarrow>
          if \<not> key_start c then None
          else (case dropWhile key_char cs of
                  [] \<Rightarrow> None
                | e # v \<Rightarrow>
                    if e \<noteq> CHR ''='' then None
                    else (case value_at v of
                            None \<Rightarrow> None
                          | Some (g, r) \<Rightarrow> Some (c # takeWhile key_char cs, g, r))))"

record re_match =
  group_key :: string
  group_val :: grp
  m_end :: nat

definition TOKEN_RE_match :: "string \<Rightarrow> nat \<Rightarrow> re_match option" where
  \<comment> \<open>\<^verbatim>\<open>TOKEN_RE.match(rest, pos)\<close>: the pattern has no anchor and no look-behind, so it
      sees the text from \<open>pos\<close> on only.\<close>
  "TOKEN_RE_match rest pos =
     (case TOKEN_RE_at (drop pos rest) of
        None \<Rightarrow> None
      | Some (k, g, r) \<Rightarrow>
          Some \<lparr>group_key = k, group_val = g, m_end = length rest - length r\<rparr>)"

section \<open>Parsed records\<close>

text \<open>
  A record is a Python dict from keys to values; a value is \<^verbatim>\<open>None\<close>, a string or a
  list. The dict keeps insertion order, so it is an association list with distinct keys:
  \<^const>\<open>map_of\<close> reads it and \<^const>\<open>AList.update\<close> writes it (in place for a key it has,
  at the end for a new key).
\<close>

datatype pyval = PNone | PStr string | PList "pyval list"

type_synonym fields = "(string \<times> pyval) list"

datatype py_error = KeyError | AttributeError | TypeError | Raised string

datatype pyobj = PyNone | PyStr string | PyOther "py_error + string"
  \<comment> \<open>What a caller can pass as a line: \<^verbatim>\<open>None\<close>, a string, or any other object, given by
      what \<^verbatim>\<open>str(line)\<close> does with it (an exception or a text).\<close>

record options =
  normalize_keys :: bool
  collect_duplicates :: bool
  warn_on_junk :: bool
  allow_blank_timestamp :: bool

definition default_options :: options where
  "default_options =
     \<lparr>normalize_keys = True, collect_duplicates = True, warn_on_junk = True,
      allow_blank_timestamp = True\<rparr>"

section \<open>parse\_log\_line\<close>

text \<open>
  The function is given twice. This section is what it returns where \<^verbatim>\<open>warnings.warn\<close>
  only emits its diagnostic (no filter turns a warning into an exception) and \<^verbatim>\<open>str(line)\<close>
  raises at most an \<^verbatim>\<open>Exception\<close>: the diagnostics are not part of the value, so
  \<^const>\<open>warn_on_junk\<close> selects nothing here. The next section is the function with its
  calls of \<^verbatim>\<open>warnings.warn\<close> and with the exceptions that leave it; the two agree where
  no warning raises (lemma \<open>parse_log_line_w_quiet\<close>).
\<close>

function skip_whitespace :: "string \<Rightarrow> nat \<Rightarrow> nat" where
  \<comment> \<open>\<^verbatim>\<open>while pos < length and rest[pos].isspace(): pos += 1\<close>\<close>
  "skip_whitespace rest pos =
     (if pos < length rest \<and> isspace (rest ! pos) then skip_whitespace rest (pos + 1)
      else pos)"
  by pat_completeness auto
termination
  by (relation "measure (\<lambda>(rest, pos). length rest - pos)") auto

declare skip_whitespace.simps [simp del]

definition decode :: "grp \<Rightarrow> string" where
  \<comment> \<open>The value of a token: the escapes of a quoted group are replaced, one after the
      other; a bareword is taken as it is.\<close>
  "decode g =
     (case g of
        Dq x \<Rightarrow>
          replace (replace (replace x [CHR 0x5C, CHR 0x22] [CHR 0x22])
                     [CHR 0x5C, CHR ''n''] [CHR 0x0A])
            [CHR 0x5C, CHR ''t''] [CHR 0x09]
      | Sq x \<Rightarrow>
          replace (replace (replace x [CHR 0x5C, CHR 0x27] [CHR 0x27])
                     [CHR 0x5C, CHR ''n''] [CHR 0x0A])
            [CHR 0x5C, CHR ''t''] [CHR 0x09]
      | Bare x \<Rightarrow> x)"

definition store :: "options \<Rightarrow> fields \<Rightarrow> string \<Rightarrow> string \<Rightarrow> fields" where
  \<comment> \<open>The duplicate policy, lines 75 to 83.\<close>
  "store opts fs key val =
     (if collect_duplicates opts then
        (case map_of fs key of
           Some old \<Rightarrow>
             if key \<noteq> ''timestamp'' then
               (case old of
                  PList xs \<Rightarrow> AList.update key (PList (xs @ [PStr val])) fs
                | _ \<Rightarrow> AList.update key (PList [old, PStr val]) fs)
             else AList.update key (PStr val) fs
         | None \<Rightarrow> AList.update key (PStr val) fs)
      else
        (case map_of fs key of
           Some old \<Rightarrow> fs
         | None \<Rightarrow> AList.update key (PStr val) fs))"

definition token_key :: "options \<Rightarrow> re_match \<Rightarrow> string" where
  "token_key opts m = (if normalize_keys opts then lower (group_key m) else group_key m)"

lemma quoted_shorter: "quoted q t = Some (v, r) \<Longrightarrow> length r < length t"
proof (induction q t arbitrary: v r rule: quoted.induct)
  case (1 q)
  then show ?case by simp
next
  case (2 q c t)
  show ?case
  proof (cases t)
    case Nil
    with "2.prems" show ?thesis by (auto split: if_splits)
  next
    case (Cons d t')
    with "2.prems" "2.IH" show ?thesis
      by (fastforce split: if_splits option.splits)
  qed
qed

lemma value_at_shorter: "value_at v = Some (g, r) \<Longrightarrow> length r < length v"
proof (cases v)
  case Nil
  then show "value_at v = Some (g, r) \<Longrightarrow> length r < length v"
    by (simp add: value_at_def)
next
  case (Cons c b)
  assume "value_at v = Some (g, r)"
  with Cons have
    "(\<exists>x. quoted (CHR 0x22) b = Some (x, r)) \<or> (\<exists>x. quoted (CHR 0x27) b = Some (x, r)) \<or>
     (takeWhile (\<lambda>c. \<not> isspace c) v \<noteq> [] \<and> r = dropWhile (\<lambda>c. \<not> isspace c) v)"
    by (auto simp: value_at_def split: if_splits option.splits)
  then show "length r < length v"
  proof (elim disjE exE conjE)
    fix x assume "quoted (CHR 0x22) b = Some (x, r)"
    from quoted_shorter [OF this] Cons show ?thesis by simp
  next
    fix x assume "quoted (CHR 0x27) b = Some (x, r)"
    from quoted_shorter [OF this] Cons show ?thesis by simp
  next
    assume ne: "takeWhile (\<lambda>c. \<not> isspace c) v \<noteq> []"
      and r: "r = dropWhile (\<lambda>c. \<not> isspace c) v"
    have "length (takeWhile (\<lambda>c. \<not> isspace c) v) + length (dropWhile (\<lambda>c. \<not> isspace c) v)
            = length v"
      by (metis length_append takeWhile_dropWhile_id)
    with ne r show ?thesis by (cases "takeWhile (\<lambda>c. \<not> isspace c) v") auto
  qed
qed

lemma TOKEN_RE_at_shorter: "TOKEN_RE_at t = Some (k, g, r) \<Longrightarrow> length r < length t"
proof -
  assume a: "TOKEN_RE_at t = Some (k, g, r)"
  then obtain c cs v where t: "t = c # cs" and d: "dropWhile key_char cs = CHR ''='' # v"
    and va: "value_at v = Some (g, r)"
    by (auto simp: TOKEN_RE_at_def split: list.splits if_splits option.splits)
  have "length (dropWhile key_char cs) \<le> length cs"
    by (rule length_dropWhile_le)
  with d have "length v < length cs" by simp
  with value_at_shorter [OF va] t show ?thesis by simp
qed

lemma TOKEN_RE_match_end:
  "TOKEN_RE_match rest pos = Some m \<Longrightarrow> pos < length rest \<Longrightarrow>
     pos < m_end m \<and> m_end m \<le> length rest"
proof -
  assume a: "TOKEN_RE_match rest pos = Some m" and p: "pos < length rest"
  then obtain k g r where at: "TOKEN_RE_at (drop pos rest) = Some (k, g, r)"
    and m: "m_end m = length rest - length r"
    by (auto simp: TOKEN_RE_match_def split: option.splits)
  from TOKEN_RE_at_shorter [OF at] have "length r < length rest - pos" by simp
  with m p show ?thesis by simp
qed

lemma skip_whitespace_ge: "pos \<le> skip_whitespace rest pos"
proof (induction rest pos rule: skip_whitespace.induct)
  case (1 rest pos)
  show ?case
  proof (cases "pos < length rest \<and> isspace (rest ! pos)")
    case True
    with "1.IH" have "pos + 1 \<le> skip_whitespace rest (pos + 1)" by simp
    with True show ?thesis by (subst skip_whitespace.simps) simp
  next
    case False
    then show ?thesis by (subst skip_whitespace.simps) auto
  qed
qed

lemma find_str_Some: "find_str s c start = Some i \<Longrightarrow> start \<le> i \<and> i < length s \<and> s ! i = c"
  unfolding find_str_def by (auto simp: find_Some_iff)

function token_loop :: "options \<Rightarrow> string \<Rightarrow> nat \<Rightarrow> fields \<Rightarrow> fields" where
  \<comment> \<open>The loop \<^verbatim>\<open>while pos < length\<close>, lines 65 to 96; the first result \<open>None\<close> of
      \<^const>\<open>find_str\<close> is its \<^verbatim>\<open>break\<close>.\<close>
  "token_loop opts rest pos fs =
     (if pos < length rest then
        (case TOKEN_RE_match rest pos of
           Some m \<Rightarrow>
             token_loop opts rest (skip_whitespace rest (m_end m))
               (store opts fs (token_key opts m) (decode (group_val m)))
         | None \<Rightarrow>
             (case find_str rest (CHR '' '') pos of
                None \<Rightarrow> fs
              | Some next_space \<Rightarrow>
                  token_loop opts rest (skip_whitespace rest (next_space + 1)) fs))
      else fs)"
  by pat_completeness auto
termination
proof (relation "measure (\<lambda>(opts, rest, pos, fs). length rest - pos)")
  show "wf (measure (\<lambda>(opts, rest, pos, fs). length rest - pos))" by simp
next
  fix opts :: options and rest :: string and pos :: nat and fs :: fields and m
  assume p: "pos < length rest" and m: "TOKEN_RE_match rest pos = Some m"
  from TOKEN_RE_match_end [OF m p] skip_whitespace_ge [of "m_end m" rest] p
  have "length rest - skip_whitespace rest (m_end m) < length rest - pos"
    by arith
  then show "((opts, rest, skip_whitespace rest (m_end m),
          store opts fs (token_key opts m) (decode (group_val m))),
         (opts, rest, pos, fs))
        \<in> measure (\<lambda>(opts, rest, pos, fs). length rest - pos)"
    by simp
next
  fix opts :: options and rest :: string and pos :: nat and fs :: fields and next_space
  assume p: "pos < length rest" and f: "find_str rest (CHR '' '') pos = Some next_space"
  from find_str_Some [OF f] skip_whitespace_ge [of "next_space + 1" rest] p
  have "length rest - skip_whitespace rest (next_space + 1) < length rest - pos"
    by arith
  then show "((opts, rest, skip_whitespace rest (next_space + 1), fs), (opts, rest, pos, fs))
        \<in> measure (\<lambda>(opts, rest, pos, fs). length rest - pos)"
    by simp
qed

declare token_loop.simps [simp del]

definition has_kv :: "fields \<Rightarrow> bool" where
  \<comment> \<open>\<^verbatim>\<open>any(k for k in fields.keys() if k != "timestamp")\<close>: a key counts when it is
      not the empty string.\<close>
  "has_kv fs = list_ex (\<lambda>k. k \<noteq> []) (filter (\<lambda>k. k \<noteq> ''timestamp'') (map fst fs))"

definition tokenize :: "options \<Rightarrow> string \<Rightarrow> pyval \<Rightarrow> py_error + fields option" where
  \<comment> \<open>Lines 62 to 100: the record starts with the timestamp, the loop fills it, and a
      record with no field and no timestamp is refused. \<^verbatim>\<open>fields["timestamp"]\<close> raises
      for a key that is not there.\<close>
  "tokenize opts rest timestamp =
     (let fs = token_loop opts rest 0 [(''timestamp'', timestamp)] in
      case map_of fs ''timestamp'' of
        None \<Rightarrow> Inl KeyError
      | Some t \<Rightarrow> if \<not> has_kv fs \<and> t = PNone then Inr None else Inr (Some fs))"

definition coerce :: "pyobj \<Rightarrow> py_error + string" where
  \<comment> \<open>Lines 41 and 42: \<^verbatim>\<open>line = "" if line is None else str(line)\<close> for what is not a
      string.\<close>
  "coerce line = (case line of PyStr l \<Rightarrow> Inr l | PyNone \<Rightarrow> Inr [] | PyOther r \<Rightarrow> r)"

definition timestamp_region :: "options \<Rightarrow> string \<Rightarrow> (pyval \<times> string) option" where
  \<comment> \<open>Lines 43 to 61: the timestamp and the text to tokenize, or \<open>None\<close> where the
      function returns \<^verbatim>\<open>None\<close> at once.\<close>
  "timestamp_region opts line =
     (let s = rstrip_chars line [CHR 0x0A] in
      if strip s = [] then None
      else if length s < 19 then None
      else
        (let ts_field = take 19 s; rest = lstrip (drop 19 s) in
         if TIMESTAMP_RE_match ts_field then Some (PStr ts_field, rest)
         else if allow_blank_timestamp opts \<and> strip ts_field = [] then Some (PNone, rest)
         else None))"

definition parse_try :: "options \<Rightarrow> pyobj \<Rightarrow> py_error + fields option" where
  \<comment> \<open>The body of the \<^verbatim>\<open>try\<close>, lines 41 to 100.\<close>
  "parse_try opts line0 =
     (case coerce line0 of
        Inl e \<Rightarrow> Inl e
      | Inr line \<Rightarrow>
          (case timestamp_region opts line of
             None \<Rightarrow> Inr None
           | Some (timestamp, rest) \<Rightarrow> tokenize opts rest timestamp))"

definition parse_log_line :: "options \<Rightarrow> pyobj \<Rightarrow> py_error + fields option" where
  \<comment> \<open>\<^verbatim>\<open>try: ... except Exception: return None\<close>, where every error of the body is an
      \<^verbatim>\<open>Exception\<close> and the handler's warning returns; \<open>Inr None\<close> is the result
      \<^verbatim>\<open>None\<close>.\<close>
  "parse_log_line opts line =
     (case parse_try opts line of Inl e \<Rightarrow> Inr None | Inr r \<Rightarrow> Inr r)"

section \<open>parse\_log\_line with its warnings and exceptions\<close>

text \<open>
  \<^verbatim>\<open>warnings.warn\<close> returns or, under a filter with the action \<^verbatim>\<open>error\<close>
  (\<^verbatim>\<open>python -W error\<close>, \<^verbatim>\<open>warnings.simplefilter("error")\<close>), raises the warning, a
  \<^verbatim>\<open>UserWarning\<close>. The handler of \<^verbatim>\<open>parse_log_line\<close> catches \<^verbatim>\<open>Exception\<close>, of which
  \<^verbatim>\<open>UserWarning\<close> is a subclass, and not the other subclasses of \<^verbatim>\<open>BaseException\<close>
  (\<^verbatim>\<open>KeyboardInterrupt\<close>, \<^verbatim>\<open>SystemExit\<close>, \<^verbatim>\<open>GeneratorExit\<close>). A warning keeps what its
  text is built from; the text of the exception in \<^verbatim>\<open>Parser error: ...\<close> is not kept.
  A line is an object of the section before, or an object whose \<^verbatim>\<open>str\<close> raises an
  exception that is no \<^verbatim>\<open>Exception\<close>, given by its name.
\<close>

datatype warning =
  Missing_timestamp_region | Blank_timestamp | Invalid_timestamp string |
  Malformed_token string | Parser_error

datatype raised = Exception py_error | UserWarning warning | BaseException string

datatype warn_action = Emitted | AsError

datatype arg = Line pyobj | Hostile string

definition warn :: "warn_action \<Rightarrow> warning \<Rightarrow> raised + unit" where
  \<comment> \<open>\<^verbatim>\<open>warnings.warn(...)\<close> under the action of the filter.\<close>
  "warn act w = (case act of AsError \<Rightarrow> Inl (UserWarning w) | Emitted \<Rightarrow> Inr ())"

definition warn_junk :: "warn_action \<Rightarrow> options \<Rightarrow> warning \<Rightarrow> raised + unit" where
  \<comment> \<open>\<^verbatim>\<open>if warn_on_junk: warnings.warn(...)\<close>\<close>
  "warn_junk act opts w = (if warn_on_junk opts then warn act w else Inr ())"

definition bad_token :: "string \<Rightarrow> nat \<Rightarrow> string" where
  \<comment> \<open>\<^verbatim>\<open>rest[pos:] if next_space == -1 else rest[pos:next_space]\<close>\<close>
  "bad_token rest pos =
     (case find_str rest (CHR '' '') pos of
        None \<Rightarrow> drop pos rest
      | Some next_space \<Rightarrow> take (next_space - pos) (drop pos rest))"

function token_loop_w ::
  "warn_action \<Rightarrow> options \<Rightarrow> string \<Rightarrow> nat \<Rightarrow> fields \<Rightarrow> raised + fields" where
  \<comment> \<open>The loop of lines 65 to 96, with the warning of lines 90 and 91.\<close>
  "token_loop_w act opts rest pos fs =
     (if pos < length rest then
        (case TOKEN_RE_match rest pos of
           Some m \<Rightarrow>
             token_loop_w act opts rest (skip_whitespace rest (m_end m))
               (store opts fs (token_key opts m) (decode (group_val m)))
         | None \<Rightarrow>
             (case (if bad_token rest pos \<noteq> []
                    then warn_junk act opts (Malformed_token (bad_token rest pos))
                    else Inr ()) of
                Inl e \<Rightarrow> Inl e
              | Inr u \<Rightarrow>
                  (case find_str rest (CHR '' '') pos of
                     None \<Rightarrow> Inr fs
                   | Some next_space \<Rightarrow>
                       token_loop_w act opts rest (skip_whitespace rest (next_space + 1)) fs)))
      else Inr fs)"
  by pat_completeness auto
termination
proof (relation "measure (\<lambda>(act, opts, rest, pos, fs). length rest - pos)", goal_cases)
  case 1
  show ?case by simp
next
  case (2 act opts rest pos fs u next_space)
  from find_str_Some [OF 2(4)] skip_whitespace_ge [of "next_space + 1" rest] 2(1)
  have "length rest - skip_whitespace rest (next_space + 1) < length rest - pos"
    by arith
  then show ?case by simp
next
  case (3 act opts rest pos fs m)
  from TOKEN_RE_match_end [OF 3(2) 3(1)] skip_whitespace_ge [of "m_end m" rest] 3(1)
  have "length rest - skip_whitespace rest (m_end m) < length rest - pos"
    by arith
  then show ?case by simp
qed

declare token_loop_w.simps [simp del]

definition tokenize_w ::
  "warn_action \<Rightarrow> options \<Rightarrow> string \<Rightarrow> pyval \<Rightarrow> raised + fields option" where
  "tokenize_w act opts rest timestamp =
     (case token_loop_w act opts rest 0 [(''timestamp'', timestamp)] of
        Inl e \<Rightarrow> Inl e
      | Inr fs \<Rightarrow>
          (case map_of fs ''timestamp'' of
             None \<Rightarrow> Inl (Exception KeyError)
           | Some t \<Rightarrow> if \<not> has_kv fs \<and> t = PNone then Inr None else Inr (Some fs)))"

definition coerce_w :: "arg \<Rightarrow> raised + string" where
  \<comment> \<open>Lines 41 and 42.\<close>
  "coerce_w line =
     (case line of
        Line obj \<Rightarrow> (case coerce obj of Inl e \<Rightarrow> Inl (Exception e) | Inr l \<Rightarrow> Inr l)
      | Hostile name \<Rightarrow> Inl (BaseException name))"

definition parse_try_w :: "warn_action \<Rightarrow> options \<Rightarrow> arg \<Rightarrow> raised + fields option" where
  \<comment> \<open>The body of the \<^verbatim>\<open>try\<close>, lines 41 to 100, with the warnings of lines 48, 57 and 60.\<close>
  "parse_try_w act opts line0 =
     (case coerce_w line0 of
        Inl e \<Rightarrow> Inl e
      | Inr line \<Rightarrow>
          (let s = rstrip_chars line [CHR 0x0A] in
           if strip s = [] then Inr None
           else if length s < 19 then
             (case warn_junk act opts Missing_timestamp_region of
                Inl e \<Rightarrow> Inl e
              | Inr u \<Rightarrow> Inr None)
           else
             (let ts_field = take 19 s; rest = lstrip (drop 19 s) in
              if TIMESTAMP_RE_match ts_field then tokenize_w act opts rest (PStr ts_field)
              else if allow_blank_timestamp opts \<and> strip ts_field = [] then
                (case warn_junk act opts Blank_timestamp of
                   Inl e \<Rightarrow> Inl e
                 | Inr u \<Rightarrow> tokenize_w act opts rest PNone)
              else
                (case warn_junk act opts (Invalid_timestamp ts_field) of
                   Inl e \<Rightarrow> Inl e
                 | Inr u \<Rightarrow> Inr None))))"

definition caught :: "raised \<Rightarrow> bool" where
  \<comment> \<open>What \<^verbatim>\<open>except Exception\<close> catches.\<close>
  "caught e = (case e of BaseException name \<Rightarrow> False | _ \<Rightarrow> True)"

definition parse_log_line_w ::
  "warn_action \<Rightarrow> options \<Rightarrow> arg \<Rightarrow> raised + fields option" where
  \<comment> \<open>Lines 40 to 104: the handler warns in its turn, and what it raises leaves the
      function, as does what it does not catch.\<close>
  "parse_log_line_w act opts line =
     (case parse_try_w act opts line of
        Inr r \<Rightarrow> Inr r
      | Inl e \<Rightarrow>
          if caught e then
            (case warn_junk act opts Parser_error of
               Inl e' \<Rightarrow> Inl e'
             | Inr u \<Rightarrow> Inr None)
          else Inl e)"

section \<open>count\_failed\_logins\<close>

text \<open>
  A \<^verbatim>\<open>Counter\<close> is a dict from strings to integers that reads a missing key as 0. The
  locals \<^verbatim>\<open>seen\<close>, \<^verbatim>\<open>counted\<close> and \<^verbatim>\<open>skipped\<close> of the loop carry the suffix \<open>_n\<close>
  here; the plain names are the keys of the dict that is returned. The parameter
  \<^verbatim>\<open>warn_on_missing_fields\<close> is never read.
\<close>

type_synonym counter = "(string \<times> int) list"

definition count_of :: "counter \<Rightarrow> string \<Rightarrow> int" where
  \<comment> \<open>\<^verbatim>\<open>ctr[k]\<close>\<close>
  "count_of ctr k = (case map_of ctr k of None \<Rightarrow> 0 | Some n \<Rightarrow> n)"

definition incr :: "counter \<Rightarrow> string \<Rightarrow> counter" where
  \<comment> \<open>\<^verbatim>\<open>ctr[k] += 1\<close>\<close>
  "incr ctr k = AList.update k (count_of ctr k + 1) ctr"

definition dict_get :: "fields \<Rightarrow> string \<Rightarrow> pyval" where
  \<comment> \<open>\<^verbatim>\<open>parsed.get(k)\<close>\<close>
  "dict_get parsed k = (case map_of parsed k of None \<Rightarrow> PNone | Some v \<Rightarrow> v)"

definition as_list :: "pyval \<Rightarrow> pyval list" where
  "as_list v = (case v of PNone \<Rightarrow> [] | PList xs \<Rightarrow> xs | PStr x \<Rightarrow> [v])"

fun upper_all :: "pyval list \<Rightarrow> py_error + codepoint list list" where
  \<comment> \<open>\<^verbatim>\<open>[s.upper() for s in ...]\<close>: only a string has the method.\<close>
  "upper_all [] = Inr []"
| "upper_all (PStr s # xs) =
     (case upper_all xs of Inl e \<Rightarrow> Inl e | Inr us \<Rightarrow> Inr (upper s # us))"
| "upper_all (v # xs) = Inl AttributeError"

fun truthy :: "pyval \<Rightarrow> bool" where
  "truthy PNone = False"
| "truthy (PStr s) = (s \<noteq> [])"
| "truthy (PList xs) = (xs \<noteq> [])"

fun count_values :: "counter \<Rightarrow> pyval list \<Rightarrow> py_error + counter" where
  \<comment> \<open>\<^verbatim>\<open>for u in ...: if u: ctr[u] += 1\<close>: a list is no key of a dict.\<close>
  "count_values ctr [] = Inr ctr"
| "count_values ctr (u # us) =
     (if truthy u then
        (case u of
           PStr k \<Rightarrow> count_values (incr ctr k) us
         | _ \<Rightarrow> Inl TypeError)
      else count_values ctr us)"

record agg =
  users_ctr :: counter
  ips_ctr :: counter
  seen_n :: int
  counted_n :: int
  skipped_n :: int

definition FAIL :: "codepoint list" where
  "FAIL = map of_char ''FAIL''"

definition count_options :: options where
  \<comment> \<open>\<^verbatim>\<open>parse_log_line(line, warn_on_junk=False)\<close>\<close>
  "count_options = default_options\<lparr>warn_on_junk := False\<rparr>"

definition count_line :: "agg \<Rightarrow> pyobj \<Rightarrow> py_error + agg" where
  \<comment> \<open>The body of the loop over the lines, lines 128 to 146.\<close>
  "count_line a line =
     (case parse_log_line count_options line of
        Inl e \<Rightarrow> Inl e
      | Inr None \<Rightarrow> Inr (a\<lparr>skipped_n := skipped_n a + 1\<rparr>)
      | Inr (Some parsed) \<Rightarrow>
          (case upper_all (as_list (dict_get parsed ''status'')) of
             Inl e \<Rightarrow> Inl e
           | Inr statuses \<Rightarrow>
               if \<not> list_ex (\<lambda>s. s = FAIL) statuses then Inr (a\<lparr>seen_n := seen_n a + 1\<rparr>)
               else
                 (case count_values (users_ctr a) (as_list (dict_get parsed ''user'')) of
                    Inl e \<Rightarrow> Inl e
                  | Inr u \<Rightarrow>
                      (case count_values (ips_ctr a) (as_list (dict_get parsed ''ip'')) of
                         Inl e \<Rightarrow> Inl e
                       | Inr i \<Rightarrow>
                           Inr (a\<lparr>users_ctr := u, ips_ctr := i, seen_n := seen_n a + 1,
                                  counted_n := counted_n a + 1\<rparr>)))))"

fun count_loop :: "agg \<Rightarrow> pyobj list \<Rightarrow> py_error + agg" where
  "count_loop a [] = Inr a"
| "count_loop a (line # lines) =
     (case count_line a line of Inl e \<Rightarrow> Inl e | Inr a' \<Rightarrow> count_loop a' lines)"

record stats =
  users :: counter
  ips :: counter
  total_fail :: int
  seen :: int
  counted :: int
  skipped :: int

definition count_failed_logins :: "pyobj list \<Rightarrow> py_error + stats" where
  "count_failed_logins lines =
     (case count_loop \<lparr>users_ctr = [], ips_ctr = [], seen_n = 0, counted_n = 0,
                        skipped_n = 0\<rparr> lines of
        Inl e \<Rightarrow> Inl e
      | Inr a \<Rightarrow>
          Inr \<lparr>users = users_ctr a, ips = ips_ctr a,
               total_fail = (if users_ctr a \<noteq> [] then sum_list (map snd (users_ctr a))
                             else sum_list (map snd (ips_ctr a))),
               seen = seen_n a, counted = counted_n a, skipped = skipped_n a\<rparr>)"

fun is_str :: "pyval \<Rightarrow> bool" where
  \<comment> \<open>\<^verbatim>\<open>isinstance(v, str)\<close>\<close>
  "is_str (PStr s) = True"
| "is_str v = False"

definition strings :: "pyval list \<Rightarrow> string list" where
  \<comment> \<open>The strings among the values, in their order.\<close>
  "strings vs = concat (map (\<lambda>v. case v of PStr s \<Rightarrow> [s] | _ \<Rightarrow> []) vs)"

definition str_or_list :: "pyval \<Rightarrow> bool" where
  \<comment> \<open>A string or a list of strings: what the loop stores under a key of a token.\<close>
  "str_or_list v = (case v of PNone \<Rightarrow> False | PStr s \<Rightarrow> True | PList xs \<Rightarrow> list_all is_str xs)"

definition field_values_ok :: "fields \<Rightarrow> bool" where
  \<comment> \<open>Every entry but the timestamp is a string or a list of strings.\<close>
  "field_values_ok fs = (\<forall>k v. map_of fs k = Some v \<and> k \<noteq> ''timestamp'' \<longrightarrow> str_or_list v)"

section \<open>The token stream of a line\<close>

function tokens :: "options \<Rightarrow> string \<Rightarrow> nat \<Rightarrow> (string \<times> string) list" where
  \<comment> \<open>The tokens that the loop of \<^const>\<open>token_loop\<close> matches from \<open>pos\<close> on, in their
      order: its scan, with each key and value it hands to \<^const>\<open>store\<close>.\<close>
  "tokens opts rest pos =
     (if pos < length rest then
        (case TOKEN_RE_match rest pos of
           Some m \<Rightarrow>
             (token_key opts m, decode (group_val m)) #
               tokens opts rest (skip_whitespace rest (m_end m))
         | None \<Rightarrow>
             (case find_str rest (CHR '' '') pos of
                None \<Rightarrow> []
              | Some next_space \<Rightarrow> tokens opts rest (skip_whitespace rest (next_space + 1))))
      else [])"
  by pat_completeness auto
termination
proof (relation "measure (\<lambda>(opts, rest, pos). length rest - pos)")
  show "wf (measure (\<lambda>(opts, rest, pos). length rest - pos))" by simp
next
  fix opts :: options and rest :: string and pos :: nat and m
  assume p: "pos < length rest" and m: "TOKEN_RE_match rest pos = Some m"
  from TOKEN_RE_match_end [OF m p] skip_whitespace_ge [of "m_end m" rest] p
  have "length rest - skip_whitespace rest (m_end m) < length rest - pos"
    by arith
  then show "((opts, rest, skip_whitespace rest (m_end m)), (opts, rest, pos))
        \<in> measure (\<lambda>(opts, rest, pos). length rest - pos)"
    by simp
next
  fix opts :: options and rest :: string and pos :: nat and next_space
  assume p: "pos < length rest" and f: "find_str rest (CHR '' '') pos = Some next_space"
  from find_str_Some [OF f] skip_whitespace_ge [of "next_space + 1" rest] p
  have "length rest - skip_whitespace rest (next_space + 1) < length rest - pos"
    by arith
  then show "((opts, rest, skip_whitespace rest (next_space + 1)), (opts, rest, pos))
        \<in> measure (\<lambda>(opts, rest, pos). length rest - pos)"
    by simp
qed

declare tokens.simps [simp del]

definition line_tokens :: "options \<Rightarrow> string \<Rightarrow> (string \<times> string) list" where
  \<comment> \<open>The token stream of a line; a line that is refused before the loop has none.\<close>
  "line_tokens opts line =
     (case timestamp_region opts line of
        None \<Rightarrow> []
      | Some (timestamp, rest) \<Rightarrow> tokens opts rest 0)"

definition token_values :: "string \<Rightarrow> (string \<times> string) list \<Rightarrow> string list" where
  \<comment> \<open>The values that a token stream gives to a key, in their order.\<close>
  "token_values k ts = map snd (filter (\<lambda>t. fst t = k) ts)"

definition store_token :: "options \<Rightarrow> fields \<Rightarrow> string \<times> string \<Rightarrow> fields" where
  \<comment> \<open>\<^const>\<open>store\<close> on a token of the stream.\<close>
  "store_token opts fs t = store opts fs (fst t) (snd t)"

lemma token_loop_tokens:
  "token_loop opts rest pos fs = foldl (store_token opts) fs (tokens opts rest pos)"
proof (induction opts rest pos fs rule: token_loop.induct)
  case (1 opts rest pos fs)
  show ?case
  proof (cases "pos < length rest")
    case False
    then show ?thesis by (simp add: token_loop.simps [of opts rest pos] tokens.simps [of opts rest pos])
  next
    case True
    show ?thesis
    proof (cases "TOKEN_RE_match rest pos")
      case (Some m)
      with True "1.IH"(2) [OF True Some] show ?thesis
        by (simp add: token_loop.simps [of opts rest pos] tokens.simps [of opts rest pos] store_token_def)
    next
      case None
      show ?thesis
      proof (cases "find_str rest (CHR '' '') pos")
        case (Some ns)
        with True None "1.IH"(1) [OF True None Some] show ?thesis
          by (simp add: token_loop.simps [of opts rest pos] tokens.simps [of opts rest pos])
      next
        case n2: None
        with True None show ?thesis
          by (simp add: token_loop.simps [of opts rest pos] tokens.simps [of opts rest pos])
      qed
    qed
  qed
qed

lemma map_of_Some_key: "map_of fs k = Some x \<Longrightarrow> k \<in> fst ` set fs"
  by (metis domI dom_map_of_conv_image_fst)

lemma store_keys: "fst ` set (store opts fs k v) = insert k (fst ` set fs)"
  by (auto simp: store_def AList.dom_update map_of_eq_None_iff split: option.splits pyval.splits
           dest: map_of_Some_key)

lemma store_distinct: "distinct (map fst fs) \<Longrightarrow> distinct (map fst (store opts fs k v))"
  by (auto simp: store_def AList.distinct_update split: option.splits pyval.splits)

lemma map_of_store_other: "k' \<noteq> k \<Longrightarrow> map_of (store opts fs k v) k' = map_of fs k'"
  by (auto simp: store_def AList.update_conv' split: option.splits pyval.splits)

lemma foldl_store_keys:
  "fst ` set (foldl (store_token opts) fs ts) = fst ` set fs \<union> fst ` set ts"
  by (induction ts arbitrary: fs) (auto simp: store_token_def store_keys)

lemma foldl_store_distinct:
  "distinct (map fst fs) \<Longrightarrow> distinct (map fst (foldl (store_token opts) fs ts))"
  by (induction ts arbitrary: fs) (auto simp: store_token_def store_distinct)

lemma token_values_snoc: "token_values k (ts @ [t]) = (if fst t = k then token_values k ts @ [snd t] else token_values k ts)"
  by (simp add: token_values_def)

lemma map_of_store_timestamp:
  "collect_duplicates opts \<Longrightarrow> map_of (store opts fs ''timestamp'' v) ''timestamp'' = Some (PStr v)"
  by (simp add: store_def AList.update_conv' split: option.splits)

lemma map_of_store_first:
  "\<not> collect_duplicates opts \<Longrightarrow>
     map_of (store opts fs k v) k = (case map_of fs k of Some old \<Rightarrow> Some old | None \<Rightarrow> Some (PStr v))"
  by (simp add: store_def AList.update_conv' split: option.splits)

lemma map_of_store_collect:
  "collect_duplicates opts \<Longrightarrow> k \<noteq> ''timestamp'' \<Longrightarrow>
     map_of (store opts fs k v) k =
       Some (case map_of fs k of
               None \<Rightarrow> PStr v
             | Some (PList xs) \<Rightarrow> PList (xs @ [PStr v])
             | Some old \<Rightarrow> PList [old, PStr v])"
  by (simp add: store_def AList.update_conv' split: option.splits pyval.splits)

lemma foldl_store_timestamp:
  "collect_duplicates opts \<Longrightarrow>
     map_of (foldl (store_token opts) fs ts) ''timestamp'' =
       (if token_values ''timestamp'' ts = [] then map_of fs ''timestamp''
        else Some (PStr (last (token_values ''timestamp'' ts))))"
proof (induction ts rule: rev_induct)
  case Nil
  then show ?case by (simp add: token_values_def)
next
  case (snoc t ts)
  show ?case
  proof (cases "fst t = ''timestamp''")
    case True
    with snoc.prems show ?thesis
      by (simp add: token_values_snoc store_token_def map_of_store_timestamp)
  next
    case False
    with snoc show ?thesis
      by (simp add: token_values_snoc store_token_def map_of_store_other)
  qed
qed

lemma foldl_store_first:
  "\<not> collect_duplicates opts \<Longrightarrow>
     map_of (foldl (store_token opts) fs ts) k =
       (case map_of fs k of
          Some old \<Rightarrow> Some old
        | None \<Rightarrow> (case token_values k ts of [] \<Rightarrow> None | v # vs \<Rightarrow> Some (PStr v)))"
proof (induction ts rule: rev_induct)
  case Nil
  then show ?case by (simp add: token_values_def split: option.splits)
next
  case (snoc t ts)
  show ?case
  proof (cases "fst t = k")
    case True
    with snoc show ?thesis
      by (auto simp: token_values_snoc store_token_def map_of_store_first split: option.splits list.splits)
  next
    case False
    with snoc show ?thesis
      by (simp add: token_values_snoc store_token_def map_of_store_other split: option.splits)
  qed
qed

lemma foldl_store_collect:
  assumes "collect_duplicates opts" and "k \<noteq> ''timestamp''" and "map_of fs k = None"
  shows "map_of (foldl (store_token opts) fs ts) k =
           (case token_values k ts of
              [] \<Rightarrow> None
            | [v] \<Rightarrow> Some (PStr v)
            | v # w # vs \<Rightarrow> Some (PList (map PStr (v # w # vs))))"
proof (induction ts rule: rev_induct)
  case Nil
  from assms(3) show ?case by (simp add: token_values_def)
next
  case (snoc t ts)
  show ?case
  proof (cases "fst t = k")
    case False
    with snoc show ?thesis
      by (simp add: token_values_snoc store_token_def map_of_store_other)
  next
    case True
    have st: "map_of (foldl (store_token opts) fs (ts @ [t])) k =
          Some (case map_of (foldl (store_token opts) fs ts) k of
               None \<Rightarrow> PStr (snd t)
             | Some (PList xs) \<Rightarrow> PList (xs @ [PStr (snd t)])
             | Some old \<Rightarrow> PList [old, PStr (snd t)])"
      using True map_of_store_collect [OF assms(1,2)] by (simp add: store_token_def)
    show ?thesis
    proof (cases "token_values k ts")
      case Nil
      with snoc True st show ?thesis by (simp add: token_values_snoc)
    next
      case (Cons v vs)
      note c1 = this
      show ?thesis
      proof (cases vs)
        case Nil
        with c1 snoc True st show ?thesis by (simp add: token_values_snoc)
      next
        case (Cons w ws)
        with c1 snoc True st show ?thesis by (simp add: token_values_snoc)
      qed
    qed
  qed
qed

lemma has_kv_iff: "has_kv fs \<longleftrightarrow> (\<exists>k \<in> fst ` set fs. k \<noteq> ''timestamp'' \<and> k \<noteq> [])"
  by (auto simp: has_kv_def list_ex_iff)

lemma lower_Nil_iff: "lower k = [] \<longleftrightarrow> k = []"
  by (simp add: lower_def)

lemma TOKEN_RE_match_key: "TOKEN_RE_match rest pos = Some m \<Longrightarrow> group_key m \<noteq> []"
  by (auto simp: TOKEN_RE_match_def TOKEN_RE_at_def split: option.splits list.splits if_splits)

lemma tokens_key_nonempty: "t \<in> set (tokens opts rest pos) \<Longrightarrow> fst t \<noteq> []"
proof (induction opts rest pos rule: tokens.induct)
  case (1 opts rest pos)
  show ?case
  proof (cases "pos < length rest")
    case False
    with "1.prems" show ?thesis by (simp add: tokens.simps [of opts rest pos])
  next
    case True
    show ?thesis
    proof (cases "TOKEN_RE_match rest pos")
      case (Some m)
      with True "1.prems" "1.IH"(2) [OF True Some] TOKEN_RE_match_key [OF Some] show ?thesis
        by (auto simp: tokens.simps [of opts rest pos] token_key_def lower_Nil_iff
                 split: if_splits)
    next
      case None
      show ?thesis
      proof (cases "find_str rest (CHR '' '') pos")
        case n2: None
        with True None "1.prems" show ?thesis by (simp add: tokens.simps [of opts rest pos])
      next
        case (Some ns)
        with True None "1.prems" "1.IH"(1) [OF True None Some] show ?thesis
          by (simp add: tokens.simps [of opts rest pos])
      qed
    qed
  qed
qed

lemma has_kv_tokens:
  "has_kv (foldl (store_token opts) [(''timestamp'', ts)] (tokens opts rest pos)) \<longleftrightarrow>
     list_ex (\<lambda>t. fst t \<noteq> ''timestamp'') (tokens opts rest pos)"
  using tokens_key_nonempty [of _ opts rest pos]
  by (auto simp: has_kv_iff foldl_store_keys list_ex_iff)

section \<open>What the parser raises\<close>

lemma tokenize_returns: "\<exists>r. tokenize opts rest timestamp = Inr r"
proof -
  have "''timestamp'' \<in> fst ` set (token_loop opts rest 0 [(''timestamp'', timestamp)])"
    by (simp add: token_loop_tokens foldl_store_keys)
  then have "map_of (token_loop opts rest 0 [(''timestamp'', timestamp)]) ''timestamp'' \<noteq> None"
    by (simp add: map_of_eq_None_iff)
  then show ?thesis
    by (auto simp: tokenize_def Let_def)
qed

lemma parse_try_returns: "coerce line = Inr l \<Longrightarrow> \<exists>r. parse_try opts line = Inr r"
  using tokenize_returns by (auto simp: parse_try_def split: option.splits)

text \<open>
  Where no warning raises (the filter lets \<^verbatim>\<open>warnings.warn\<close> return, or
  \<^const>\<open>warn_on_junk\<close> is off) and \<^verbatim>\<open>str(line)\<close> raises at most an \<^verbatim>\<open>Exception\<close>, the
  function returns, and what it returns is \<^const>\<open>parse_log_line\<close> of the section before.
\<close>

lemma warn_junk_quiet: "act = Emitted \<or> \<not> warn_on_junk opts \<Longrightarrow> warn_junk act opts w = Inr ()"
  by (auto simp: warn_junk_def warn_def)

lemma token_loop_w_quiet:
  assumes q: "act = Emitted \<or> \<not> warn_on_junk opts"
  shows "token_loop_w act opts rest pos fs = Inr (token_loop opts rest pos fs)"
  using q
proof (induction act opts rest pos fs rule: token_loop_w.induct)
  case (1 act opts rest pos fs)
  note w = warn_junk_quiet [OF "1.prems"]
  show ?case
  proof (cases "pos < length rest")
    case False
    then show ?thesis
      by (simp add: token_loop_w.simps [of act opts rest pos] token_loop.simps [of opts rest pos])
  next
    case True
    show ?thesis
    proof (cases "TOKEN_RE_match rest pos")
      case (Some m)
      with True "1.IH"(2) [OF True Some "1.prems"] show ?thesis
        by (simp add: token_loop_w.simps [of act opts rest pos] token_loop.simps [of opts rest pos])
    next
      case None
      have u: "(if bad_token rest pos \<noteq> []
                then warn_junk act opts (Malformed_token (bad_token rest pos))
                else Inr ()) = Inr ()"
        by (simp add: w)
      show ?thesis
      proof (cases "find_str rest (CHR '' '') pos")
        case n2: None
        with True None u show ?thesis
          by (simp add: token_loop_w.simps [of act opts rest pos]
                token_loop.simps [of opts rest pos])
      next
        case (Some ns)
        with True None u "1.IH"(1) [OF True None u Some "1.prems"] show ?thesis
          by (simp add: token_loop_w.simps [of act opts rest pos]
                token_loop.simps [of opts rest pos])
      qed
    qed
  qed
qed

lemma tokenize_w_quiet:
  assumes "act = Emitted \<or> \<not> warn_on_junk opts"
  shows "tokenize_w act opts rest timestamp =
           (case tokenize opts rest timestamp of
              Inl e \<Rightarrow> Inl (Exception e)
            | Inr r \<Rightarrow> Inr r)"
  by (simp add: tokenize_w_def tokenize_def token_loop_w_quiet [OF assms] Let_def
           split: option.splits)

lemma parse_try_w_quiet:
  assumes "act = Emitted \<or> \<not> warn_on_junk opts"
  shows "parse_try_w act opts (Line obj) =
           (case parse_try opts obj of
              Inl e \<Rightarrow> Inl (Exception e)
            | Inr r \<Rightarrow> Inr r)"
  by (auto simp: parse_try_w_def parse_try_def coerce_w_def timestamp_region_def Let_def
                 warn_junk_quiet [OF assms] tokenize_w_quiet [OF assms]
           split: sum.splits)

lemma parse_log_line_w_quiet:
  assumes "act = Emitted \<or> \<not> warn_on_junk opts"
  shows "parse_log_line_w act opts (Line obj) = Inr r \<longleftrightarrow> parse_log_line opts obj = Inr r"
  by (auto simp: parse_log_line_w_def parse_log_line_def parse_try_w_quiet [OF assms]
                 caught_def warn_junk_quiet [OF assms]
           split: sum.splits)

lemma parse_log_line_w_returns:
  assumes "act = Emitted \<or> \<not> warn_on_junk opts"
  shows "\<exists>r. parse_log_line_w act opts (Line obj) = Inr r"
proof -
  obtain r where "parse_log_line opts obj = Inr r"
    by (cases "parse_try opts obj") (simp_all add: parse_log_line_def)
  with parse_log_line_w_quiet [OF assms, of obj r] show ?thesis by blast
qed

text \<open>
  \<^verbatim>\<open>count_failed_logins\<close> calls the function with \<^verbatim>\<open>warn_on_junk=False\<close>: no warning
  is reached under any filter, and \<^const>\<open>parse_log_line\<close> is what the call returns.
\<close>

lemma parse_log_line_w_count:
  "parse_log_line_w act count_options (Line obj) = Inr r \<longleftrightarrow>
     parse_log_line count_options obj = Inr r"
  by (rule parse_log_line_w_quiet) (simp add: count_options_def default_options_def)

text \<open>
  Claim C1. \<^verbatim>\<open>parse_log_line\<close> returns a record or \<^verbatim>\<open>None\<close> for every line and every
  choice of the four options, and no exception reaches its caller; its docstring says
  the same (\<^verbatim>\<open>Never raises\<close>). The handler catches \<^verbatim>\<open>Exception\<close> only and calls
  \<^verbatim>\<open>warnings.warn\<close> itself. So under a filter that turns warnings into errors, with
  \<^const>\<open>warn_on_junk\<close> (the default), a line shorter than 19 characters raises: the warning
  of the body is caught, and the warning of the handler leaves the function. A line with
  a valid timestamp and a malformed token raises in the same way, where it gives a
  record otherwise. An object whose \<^verbatim>\<open>str\<close> raises \<^verbatim>\<open>KeyboardInterrupt\<close> raises under
  every filter, while an \<^verbatim>\<open>Exception\<close> of \<^verbatim>\<open>str\<close> gives \<^verbatim>\<open>None\<close>.
\<close>

theorem parse_log_line_raises:
  "parse_log_line_w AsError default_options (Line (PyStr ''2024-11-25 status'')) =
     Inl (UserWarning Parser_error) \<and>
   parse_try_w AsError default_options (Line (PyStr ''2024-11-25 status'')) =
     Inl (UserWarning Missing_timestamp_region) \<and>
   parse_log_line_w Emitted default_options (Line (PyStr ''2024-11-25 status'')) = Inr None \<and>
   parse_log_line_w AsError default_options
     (Line (PyStr ''2024-11-25 08:35:10 event=LOGIN status user=admin'')) =
     Inl (UserWarning Parser_error) \<and>
   parse_try_w AsError default_options
     (Line (PyStr ''2024-11-25 08:35:10 event=LOGIN status user=admin'')) =
     Inl (UserWarning (Malformed_token ''status'')) \<and>
   parse_log_line_w Emitted default_options (Hostile ''KeyboardInterrupt'') =
     Inl (BaseException ''KeyboardInterrupt'') \<and>
   parse_log_line_w Emitted default_options (Line (PyOther (Inl (Raised ''boom'')))) = Inr None"
  by code_simp

section \<open>The timestamp region\<close>

lemma parse_log_line_text:
  "coerce line = Inr l \<Longrightarrow>
     parse_log_line opts line =
       Inr (case timestamp_region opts l of
              None \<Rightarrow> None
            | Some (ts, rest) \<Rightarrow>
                if \<not> has_kv (token_loop opts rest 0 [(''timestamp'', ts)]) \<and>
                   map_of (token_loop opts rest 0 [(''timestamp'', ts)]) ''timestamp'' = Some PNone
                then None
                else Some (token_loop opts rest 0 [(''timestamp'', ts)]))"
proof -
  assume c: "coerce line = Inr l"
  show ?thesis
  proof (cases "timestamp_region opts l")
    case None
    with c show ?thesis by (simp add: parse_log_line_def parse_try_def)
  next
    case (Some p)
    obtain ts rest where p: "p = (ts, rest)" by (cases p)
    from tokenize_returns [of opts rest ts] obtain r where r: "tokenize opts rest ts = Inr r" ..
    then have "r = (if \<not> has_kv (token_loop opts rest 0 [(''timestamp'', ts)]) \<and>
                   map_of (token_loop opts rest 0 [(''timestamp'', ts)]) ''timestamp'' = Some PNone
                then None
                else Some (token_loop opts rest 0 [(''timestamp'', ts)]))"
      by (auto simp: tokenize_def Let_def split: option.splits if_splits)
    with c Some p r show ?thesis by (simp add: parse_log_line_def parse_try_def)
  qed
qed

lemma list_all2_classes:
  "list_all2 (\<lambda>p c. p c) ps xs \<Longrightarrow> (\<And>p c. p \<in> set ps \<Longrightarrow> p c \<Longrightarrow> Q c) \<Longrightarrow> c \<in> set xs \<Longrightarrow> Q c"
  by (induction ps xs rule: list_all2_induct) auto

lemma isdecimal_not_space: "isdecimal c \<Longrightarrow> \<not> isspace c"
  by (auto simp: isdecimal_def isspace_def)

lemma TIMESTAMP_RE_class: "p \<in> set TIMESTAMP_RE \<Longrightarrow> p c \<Longrightarrow> c \<noteq> CHR 0x0A"
  by (auto simp: TIMESTAMP_RE_def isdecimal_def)

lemma list_all2_last:
  "list_all2 (\<lambda>p c. p c) ps xs \<Longrightarrow> ps \<noteq> [] \<Longrightarrow> (last ps) (last xs)"
  by (induction ps xs rule: list_all2_induct) (auto simp: list_all2_Nil)

lemma list_all2_hd:
  "list_all2 (\<lambda>p c. p c) ps xs \<Longrightarrow> ps \<noteq> [] \<Longrightarrow> (hd ps) (hd xs)"
  by (cases ps; cases xs) auto

lemma TIMESTAMP_RE_match_chars:
  assumes "TIMESTAMP_RE_match t"
  shows "length (take 19 t) = 19"
    and "c \<in> set (take 19 t) \<Longrightarrow> c \<noteq> CHR 0x0A"
    and "\<not> isspace (last (take 19 t))"
    and "\<not> isspace (hd (take 19 t))"
proof -
  from assms have a: "list_all2 (\<lambda>p c. p c) TIMESTAMP_RE (take 19 t)"
    by (simp add: TIMESTAMP_RE_match_def)
  from list_all2_lengthD [OF a] show "length (take 19 t) = 19"
    by (simp add: TIMESTAMP_RE_def)
  show "c \<in> set (take 19 t) \<Longrightarrow> c \<noteq> CHR 0x0A"
    using list_all2_classes [OF a, of "\<lambda>c. c \<noteq> CHR 0x0A" c] TIMESTAMP_RE_class by blast
  from list_all2_last [OF a] have "isdecimal (last (take 19 t))"
    by (simp add: TIMESTAMP_RE_def)
  then show "\<not> isspace (last (take 19 t))" by (rule isdecimal_not_space)
  from list_all2_hd [OF a] have "isdecimal (hd (take 19 t))"
    by (simp add: TIMESTAMP_RE_def)
  then show "\<not> isspace (hd (take 19 t))" by (rule isdecimal_not_space)
qed

lemma rstrip_append:
  "a \<noteq> [] \<Longrightarrow> \<not> P (last a) \<Longrightarrow>
     rev (dropWhile P (rev (a @ b))) = a @ rev (dropWhile P (rev b))"
proof -
  assume a: "a \<noteq> []" and l: "\<not> P (last a)"
  then have h: "dropWhile P (rev a) = rev a"
    by (cases "rev a") (auto simp: last_rev [symmetric] simp del: last_rev)
  show ?thesis
  proof (cases "\<forall>x\<in>set (rev b). P x")
    case True
    then have "dropWhile P (rev b) = []" by simp
    with True h show ?thesis by (simp add: dropWhile_append)
  next
    case False
    then show ?thesis by (auto simp: dropWhile_append)
  qed
qed

lemma rstrip_chars_prefix: "\<exists>t. l = rstrip_chars l cs @ t"
proof -
  have "rev l = takeWhile (\<lambda>c. c \<in> set cs) (rev l) @ dropWhile (\<lambda>c. c \<in> set cs) (rev l)"
    by simp
  then have "l = rev (dropWhile (\<lambda>c. c \<in> set cs) (rev l)) @ rev (takeWhile (\<lambda>c. c \<in> set cs) (rev l))"
    by (metis rev_append rev_rev_ident)
  then show ?thesis unfolding rstrip_chars_def by blast
qed

lemma timestamp_region_match:
  assumes "TIMESTAMP_RE_match (take 19 l)"
  shows "timestamp_region opts l =
           Some (PStr (take 19 l), lstrip (drop 19 (rstrip_chars l [CHR 0x0A])))"
proof -
  define a where "a = take 19 l"
  define b where "b = rstrip_chars (drop 19 l) [CHR 0x0A]"
  from assms have m: "TIMESTAMP_RE_match (take 19 a)" by (simp add: a_def)
  from TIMESTAMP_RE_match_chars(1) [OF assms] have len: "length a = 19" by (simp add: a_def)
  then have ne: "a \<noteq> []" by auto
  then have "last a \<in> set a" by simp
  with TIMESTAMP_RE_match_chars(2) [OF assms] have nl: "last a \<noteq> CHR 0x0A" by (simp add: a_def)
  from TIMESTAMP_RE_match_chars(3,4) [OF assms]
  have sp: "\<not> isspace (last a)" "\<not> isspace (hd a)" by (simp_all add: a_def)
  have l: "l = a @ drop 19 l" by (simp add: a_def)
  have "rstrip_chars (a @ drop 19 l) [CHR 0x0A] = a @ b"
    unfolding rstrip_chars_def b_def using ne nl by (intro rstrip_append) simp_all
  with l have s: "rstrip_chars l [CHR 0x0A] = a @ b" by simp
  have "rstrip (a @ b) = a @ rstrip b"
    unfolding rstrip_def using ne sp(1) by (rule rstrip_append)
  moreover have "lstrip (a @ rstrip b) = a @ rstrip b"
    using ne sp(2) by (cases a) (simp_all add: lstrip_def)
  ultimately have st: "strip (a @ b) \<noteq> []" using ne by (simp add: strip_def)
  from len m have m': "TIMESTAMP_RE_match a" by simp
  from s st len m' show ?thesis
    by (simp add: timestamp_region_def Let_def a_def [symmetric])
qed

lemma take_rstrip_chars:
  "19 \<le> length (rstrip_chars l cs) \<Longrightarrow> take 19 (rstrip_chars l cs) = take 19 l"
proof -
  assume a: "19 \<le> length (rstrip_chars l cs)"
  from rstrip_chars_prefix [of l cs] obtain t where "l = rstrip_chars l cs @ t" ..
  then have "take 19 l = take 19 (rstrip_chars l cs @ t)" by simp
  with a show ?thesis by simp
qed

lemma timestamp_region_cases:
  assumes "timestamp_region opts l = Some (ts, rest)"
  shows "rest = lstrip (drop 19 (rstrip_chars l [CHR 0x0A]))"
    and "ts = (if TIMESTAMP_RE_match (take 19 l) then PStr (take 19 l) else PNone)"
proof -
  from assms have len: "19 \<le> length (rstrip_chars l [CHR 0x0A])"
    by (auto simp: timestamp_region_def Let_def split: if_splits)
  note tk = take_rstrip_chars [OF len]
  from assms show "rest = lstrip (drop 19 (rstrip_chars l [CHR 0x0A]))"
    by (auto simp: timestamp_region_def Let_def split: if_splits)
  from assms tk show "ts = (if TIMESTAMP_RE_match (take 19 l) then PStr (take 19 l) else PNone)"
    by (auto simp: timestamp_region_def Let_def split: if_splits)
qed

lemma timestamp_region_blank:
  assumes "list_all isspace l"
  shows "timestamp_region opts l = None"
proof -
  from rstrip_chars_prefix [of l "[CHR 0x0A]"] obtain t where "l = rstrip_chars l [CHR 0x0A] @ t" ..
  then have "set (rstrip_chars l [CHR 0x0A]) \<subseteq> set l"
    by (metis Un_upper1 set_append)
  with assms have "\<forall>c \<in> set (rev (rstrip_chars l [CHR 0x0A])). isspace c"
    by (auto simp: list_all_iff)
  then have "dropWhile isspace (rev (rstrip_chars l [CHR 0x0A])) = []"
    by (simp add: dropWhile_eq_Nil_conv)
  then have "rstrip (rstrip_chars l [CHR 0x0A]) = []"
    unfolding rstrip_def by (simp only: rev.simps)
  then have "strip (rstrip_chars l [CHR 0x0A]) = []"
    unfolding strip_def lstrip_def by (simp only: dropWhile.simps)
  then show ?thesis by (simp add: timestamp_region_def)
qed

section \<open>The shared key of the timestamp\<close>

lemma line_tokens_region:
  "timestamp_region opts l = Some (ts, rest) \<Longrightarrow> line_tokens opts l = tokens opts rest 0"
  by (simp add: line_tokens_def)

lemma token_values_key: "token_values k ts \<noteq> [] \<Longrightarrow> k \<in> fst ` set ts"
  by (auto simp: token_values_def filter_empty_conv)

lemma line_tokens_Some:
  "line_tokens opts l \<noteq> [] \<Longrightarrow> \<exists>ts rest. timestamp_region opts l = Some (ts, rest)"
  by (cases "timestamp_region opts l") (auto simp: line_tokens_def)

lemma filter_key_one:
  "distinct (map fst fs) \<Longrightarrow> k \<in> fst ` set fs \<Longrightarrow> length (filter (\<lambda>e. fst e = k) fs) = 1"
proof (induction fs)
  case Nil
  then show ?case by simp
next
  case (Cons e fs)
  show ?case
  proof (cases "fst e = k")
    case True
    with Cons.prems(1) have "filter (\<lambda>e. fst e = k) fs = []"
      by (force simp: filter_empty_conv image_iff)
    with True show ?thesis by simp
  next
    case False
    with Cons show ?thesis by auto
  qed
qed

text \<open>
  Claim C3. As stated, a record comes only from a line whose first 19 characters match
  the timestamp pattern or that gives the record a field other than the timestamp. The
  timestamp and the fields share one dict, and with \<^const>\<open>collect_duplicates\<close> a token
  \<^verbatim>\<open>timestamp=...\<close> writes the slot of the timestamp: a line with a blank prefix and that
  token alone gives a record. What holds: a record that is returned comes from a line
  whose first 19 characters match the pattern, or (with \<^const>\<open>collect_duplicates\<close>) whose
  token stream has a token with the key \<^verbatim>\<open>timestamp\<close>, or it has a field other than the
  timestamp; and no record has both the timestamp \<^verbatim>\<open>None\<close> and no other field.
\<close>

theorem record_has_timestamp_or_field:
  assumes "coerce line = Inr l" and "parse_log_line opts line = Inr (Some fs)"
  shows "(TIMESTAMP_RE_match (take 19 l) \<or>
          (collect_duplicates opts \<and> token_values ''timestamp'' (line_tokens opts l) \<noteq> []) \<or>
          has_kv fs) \<and>
         \<not> (map_of fs ''timestamp'' = Some PNone \<and> \<not> has_kv fs)"
proof -
  from assms obtain ts rest where reg: "timestamp_region opts l = Some (ts, rest)"
    by (cases "timestamp_region opts l") (auto simp: parse_log_line_text)
  define F where "F = token_loop opts rest 0 [(''timestamp'', ts)]"
  from assms reg have fs: "fs = F" and ok: "map_of F ''timestamp'' \<noteq> Some PNone \<or> has_kv F"
    by (auto simp: parse_log_line_text F_def split: if_splits)
  have F: "F = foldl (store_token opts) [(''timestamp'', ts)] (tokens opts rest 0)"
    by (simp add: F_def token_loop_tokens)
  note ts = timestamp_region_cases(2) [OF reg]
  show ?thesis
  proof (cases "has_kv F")
    case True
    with fs show ?thesis by simp
  next
    case False
    with ok have nn: "map_of F ''timestamp'' \<noteq> Some PNone" by simp
    show ?thesis
    proof (cases "collect_duplicates opts")
      case True
      from nn ts foldl_store_timestamp [OF True, of "[(''timestamp'', ts)]" "tokens opts rest 0"]
      have "TIMESTAMP_RE_match (take 19 l) \<or> token_values ''timestamp'' (tokens opts rest 0) \<noteq> []"
        by (auto simp: F split: if_splits)
      with True nn fs show ?thesis by (auto simp: line_tokens_region [OF reg])
    next
      case False
      from nn ts foldl_store_first [OF False, of "[(''timestamp'', ts)]" "tokens opts rest 0" "''timestamp''"]
      have "TIMESTAMP_RE_match (take 19 l)"
        by (auto simp: F split: if_splits)
      with nn fs show ?thesis by simp
    qed
  qed
qed

theorem record_has_timestamp_or_field_witness:
  "coerce (PyStr ''                   timestamp=x'') = Inr ''                   timestamp=x'' \<and>
   parse_log_line default_options (PyStr ''                   timestamp=x'') =
     Inr (Some [(''timestamp'', PStr ''x'')]) \<and>
   (TIMESTAMP_RE_match (take 19 ''                   timestamp=x'') \<or>
    (collect_duplicates default_options \<and>
     token_values ''timestamp'' (line_tokens default_options ''                   timestamp=x'') \<noteq> []) \<or>
    has_kv [(''timestamp'', PStr ''x'')]) \<and>
   \<not> (map_of [(''timestamp'', PStr ''x'')] ''timestamp'' = Some PNone \<and>
      \<not> has_kv [(''timestamp'', PStr ''x'')])"
proof -
  have h1: "coerce (PyStr ''                   timestamp=x'') = Inr ''                   timestamp=x''"
    by (simp add: coerce_def)
  have h2: "parse_log_line default_options (PyStr ''                   timestamp=x'') =
     Inr (Some [(''timestamp'', PStr ''x'')])"
    by code_simp
  from record_has_timestamp_or_field [OF h1 h2] h1 h2 show ?thesis by blast
qed

text \<open>
  The line of 19 spaces and \<^verbatim>\<open>timestamp=x\<close>, under the default options: a record, from a
  prefix that does not match, with no field but the timestamp.
\<close>

theorem record_without_timestamp_or_field:
  "parse_log_line default_options (PyStr ''                   timestamp=x'') =
     Inr (Some [(''timestamp'', PStr ''x'')]) \<and>
   \<not> TIMESTAMP_RE_match (take 19 ''                   timestamp=x'') \<and>
   \<not> has_kv [(''timestamp'', PStr ''x'')]"
  by code_simp

text \<open>
  Claim C4. As stated, the timestamp of the record is the line's first 19 characters
  whenever these match the pattern. With \<^const>\<open>collect_duplicates\<close> a later token with the
  key \<^verbatim>\<open>timestamp\<close> replaces it. What holds: every line whose first 19 characters match
  the pattern gives a record, and the timestamp of the record is these 19 characters when
  \<^const>\<open>collect_duplicates\<close> is off or no token of the line has the key \<^verbatim>\<open>timestamp\<close>; it
  is the value of the last such token otherwise.
\<close>

theorem timestamp_is_prefix:
  assumes "coerce line = Inr l" and "TIMESTAMP_RE_match (take 19 l)"
  shows "\<exists>fs. parse_log_line opts line = Inr (Some fs) \<and>
              map_of fs ''timestamp'' =
                Some (PStr (if collect_duplicates opts \<and>
                               token_values ''timestamp'' (line_tokens opts l) \<noteq> []
                            then last (token_values ''timestamp'' (line_tokens opts l))
                            else take 19 l))"
proof -
  note reg = timestamp_region_match [OF assms(2), of opts]
  define rest where "rest = lstrip (drop 19 (rstrip_chars l [CHR 0x0A]))"
  define F where "F = token_loop opts rest 0 [(''timestamp'', PStr (take 19 l))]"
  have F: "F = foldl (store_token opts) [(''timestamp'', PStr (take 19 l))] (tokens opts rest 0)"
    by (simp add: F_def token_loop_tokens)
  have lt: "line_tokens opts l = tokens opts rest 0"
    using reg by (simp add: line_tokens_def rest_def)
  have m: "map_of F ''timestamp'' =
             Some (PStr (if collect_duplicates opts \<and>
                            token_values ''timestamp'' (line_tokens opts l) \<noteq> []
                         then last (token_values ''timestamp'' (line_tokens opts l))
                         else take 19 l))"
  proof (cases "collect_duplicates opts")
    case True
    from foldl_store_timestamp [OF True, of "[(''timestamp'', PStr (take 19 l))]" "tokens opts rest 0"]
      True lt
    show ?thesis by (simp add: F)
  next
    case False
    from foldl_store_first [OF False, of "[(''timestamp'', PStr (take 19 l))]" "tokens opts rest 0" "''timestamp''"]
      False
    show ?thesis by (simp add: F)
  qed
  then have "map_of F ''timestamp'' \<noteq> Some PNone" by simp
  with assms(1) reg have "parse_log_line opts line = Inr (Some F)"
    by (simp add: parse_log_line_text F_def rest_def)
  with m show ?thesis by blast
qed

theorem timestamp_is_prefix_witness:
  "(\<exists>fs. parse_log_line default_options (PyStr ''2024-11-25 08:30:12 user=bob'') = Inr (Some fs) \<and>
         map_of fs ''timestamp'' = Some (PStr ''2024-11-25 08:30:12'')) \<and>
   (\<exists>fs. parse_log_line (default_options\<lparr>collect_duplicates := False\<rparr>)
           (PyStr ''2024-11-25 08:30:12 timestamp=a'') = Inr (Some fs) \<and>
         map_of fs ''timestamp'' = Some (PStr ''2024-11-25 08:30:12'')) \<and>
   (\<exists>fs. parse_log_line default_options (PyStr ''2024-11-25 08:30:12 timestamp=a'') =
           Inr (Some fs) \<and>
         map_of fs ''timestamp'' = Some (PStr ''a''))"
proof -
  have h1: "coerce (PyStr ''2024-11-25 08:30:12 user=bob'') = Inr ''2024-11-25 08:30:12 user=bob''"
    by (simp add: coerce_def)
  have h2: "TIMESTAMP_RE_match (take 19 ''2024-11-25 08:30:12 user=bob'')"
    by code_simp
  have h3: "token_values ''timestamp'' (line_tokens default_options ''2024-11-25 08:30:12 user=bob'') = []"
    by code_simp
  have g1: "coerce (PyStr ''2024-11-25 08:30:12 timestamp=a'') = Inr ''2024-11-25 08:30:12 timestamp=a''"
    by (simp add: coerce_def)
  have g2: "TIMESTAMP_RE_match (take 19 ''2024-11-25 08:30:12 timestamp=a'')"
    by code_simp
  have g3: "token_values ''timestamp''
              (line_tokens default_options ''2024-11-25 08:30:12 timestamp=a'') = [''a'']"
    by code_simp
  from timestamp_is_prefix [OF h1 h2, of default_options] h3
  have a: "\<exists>fs. parse_log_line default_options (PyStr ''2024-11-25 08:30:12 user=bob'') = Inr (Some fs) \<and>
         map_of fs ''timestamp'' = Some (PStr ''2024-11-25 08:30:12'')"
    by simp
  from timestamp_is_prefix [OF g1 g2, of "default_options\<lparr>collect_duplicates := False\<rparr>"]
  have b: "\<exists>fs. parse_log_line (default_options\<lparr>collect_duplicates := False\<rparr>)
           (PyStr ''2024-11-25 08:30:12 timestamp=a'') = Inr (Some fs) \<and>
         map_of fs ''timestamp'' = Some (PStr ''2024-11-25 08:30:12'')"
    by (simp add: default_options_def)
  from timestamp_is_prefix [OF g1 g2, of default_options] g3
  have c: "\<exists>fs. parse_log_line default_options (PyStr ''2024-11-25 08:30:12 timestamp=a'') =
           Inr (Some fs) \<and> map_of fs ''timestamp'' = Some (PStr ''a'')"
    by (simp add: default_options_def)
  from a b c show ?thesis by blast
qed

text \<open>
  The prefix matches, and the record's timestamp is the value of the token.
\<close>

theorem timestamp_overwritten:
  "TIMESTAMP_RE_match (take 19 ''2024-11-25 08:30:12 timestamp=a'') \<and>
   parse_log_line default_options (PyStr ''2024-11-25 08:30:12 timestamp=a'') =
     Inr (Some [(''timestamp'', PStr ''a'')]) \<and>
   map_of [(''timestamp'', PStr ''a'')] ''timestamp'' \<noteq>
     Some (PStr (take 19 ''2024-11-25 08:30:12 timestamp=a''))"
  by code_simp

text \<open>
  Claim C5. As stated for every key, a key that the token stream gives the values
  \<open>v1\<close> and then \<open>v2\<close> has the entry \<open>[v1, v2]\<close> with \<^const>\<open>collect_duplicates\<close> and the
  entry \<open>v1\<close> without. The key \<^verbatim>\<open>timestamp\<close> is the exception: its entry is the last value
  with \<^const>\<open>collect_duplicates\<close>, and what the prefix gave without. What holds, for every
  key but \<^verbatim>\<open>timestamp\<close>: when the token stream gives the key the values \<open>v1\<close>, \<open>v2\<close> and
  then \<open>vs\<close>, the line gives a record whose entry for the key is the list of all of them
  in their order with \<^const>\<open>collect_duplicates\<close> (\<open>[v1, v2]\<close> for a key that occurs twice),
  and \<open>v1\<close> without.
\<close>

theorem duplicate_fields:
  assumes "coerce line = Inr l" and "k \<noteq> ''timestamp''"
    and "token_values k (line_tokens opts l) = v1 # v2 # vs"
  shows "\<exists>fs. parse_log_line opts line = Inr (Some fs) \<and>
              map_of fs k =
                Some (if collect_duplicates opts then PList (map PStr (v1 # v2 # vs))
                      else PStr v1)"
proof -
  from assms(3) have "line_tokens opts l \<noteq> []" by (auto simp: token_values_def)
  from line_tokens_Some [OF this] obtain ts rest
    where reg: "timestamp_region opts l = Some (ts, rest)" by blast
  note lt = line_tokens_region [OF reg]
  define F where "F = token_loop opts rest 0 [(''timestamp'', ts)]"
  have F: "F = foldl (store_token opts) [(''timestamp'', ts)] (tokens opts rest 0)"
    by (simp add: F_def token_loop_tokens)
  from assms(3) lt have tv: "token_values k (tokens opts rest 0) = v1 # v2 # vs" by simp
  then have "token_values k (tokens opts rest 0) \<noteq> []" by simp
  from token_values_key [OF this] obtain t where t: "t \<in> set (tokens opts rest 0)" "fst t = k"
    by auto
  from tokens_key_nonempty [OF t(1)] t(2) have kne: "k \<noteq> []" by simp
  from t have "k \<in> fst ` set F" by (auto simp: F foldl_store_keys)
  with kne assms(2) have kv: "has_kv F" by (auto simp: has_kv_iff)
  from assms(1) reg kv have p: "parse_log_line opts line = Inr (Some F)"
    by (simp add: parse_log_line_text F_def)
  have none: "map_of [(''timestamp'', ts)] k = None" using assms(2) by simp
  have "map_of F k =
          Some (if collect_duplicates opts then PList (map PStr (v1 # v2 # vs)) else PStr v1)"
  proof (cases "collect_duplicates opts")
    case True
    from foldl_store_collect [OF True assms(2) none, of "tokens opts rest 0"] tv True
    show ?thesis by (simp add: F)
  next
    case False
    from foldl_store_first [OF False, of "[(''timestamp'', ts)]" "tokens opts rest 0" k] tv none False
    show ?thesis by (simp add: F)
  qed
  with p show ?thesis by blast
qed

theorem duplicate_fields_witness:
  "(\<exists>fs. parse_log_line default_options (PyStr ''2024-11-25 08:30:12 user=a user=b'') =
           Inr (Some fs) \<and>
         map_of fs ''user'' = Some (PList [PStr ''a'', PStr ''b''])) \<and>
   (\<exists>fs. parse_log_line (default_options\<lparr>collect_duplicates := False\<rparr>)
           (PyStr ''2024-11-25 08:30:12 user=a user=b'') = Inr (Some fs) \<and>
         map_of fs ''user'' = Some (PStr ''a''))"
proof -
  have h1: "coerce (PyStr ''2024-11-25 08:30:12 user=a user=b'') =
              Inr ''2024-11-25 08:30:12 user=a user=b''"
    by (simp add: coerce_def)
  have h2: "''user'' \<noteq> ''timestamp''" by simp
  have h3: "token_values ''user'' (line_tokens default_options ''2024-11-25 08:30:12 user=a user=b'')
              = [''a'', ''b'']"
    by code_simp
  have h4: "token_values ''user''
              (line_tokens (default_options\<lparr>collect_duplicates := False\<rparr>)
                 ''2024-11-25 08:30:12 user=a user=b'') = [''a'', ''b'']"
    by code_simp
  from duplicate_fields [OF h1 h2 h3] duplicate_fields [OF h1 h2 h4]
  show ?thesis by (simp add: default_options_def)
qed

text \<open>
  The key \<^verbatim>\<open>timestamp\<close> twice: the entry is the second value with \<^const>\<open>collect_duplicates\<close>,
  and the 19 characters of the prefix without.
\<close>

theorem duplicate_timestamp_key:
  "line_tokens default_options ''2024-11-25 08:30:12 timestamp=a timestamp=b'' =
     [(''timestamp'', ''a''), (''timestamp'', ''b'')] \<and>
   parse_log_line default_options (PyStr ''2024-11-25 08:30:12 timestamp=a timestamp=b'') =
     Inr (Some [(''timestamp'', PStr ''b'')]) \<and>
   map_of [(''timestamp'', PStr ''b'')] ''timestamp'' \<noteq> Some (PList [PStr ''a'', PStr ''b'']) \<and>
   parse_log_line (default_options\<lparr>collect_duplicates := False\<rparr>)
       (PyStr ''2024-11-25 08:30:12 timestamp=a timestamp=b'') =
     Inr (Some [(''timestamp'', PStr ''2024-11-25 08:30:12'')]) \<and>
   map_of [(''timestamp'', PStr ''2024-11-25 08:30:12'')] ''timestamp'' \<noteq> Some (PStr ''a'')"
  by code_simp

text \<open>
  Claim C10. The timestamp and the fields share the key \<^verbatim>\<open>timestamp\<close>. For a line that
  reaches the loop and whose token stream gives the key \<^verbatim>\<open>timestamp\<close> (after
  \<^const>\<open>normalize_keys\<close>) the values \<open>vs\<close>: with \<^const>\<open>collect_duplicates\<close> the slot of the
  timestamp holds the last of these values in place of what the prefix gave; without, it
  keeps what the prefix gave; the dict has one entry with that key in either case; the
  test for a field other than the timestamp sees the tokens with another key only; and
  the line is refused exactly when it has no such token, the prefix gave \<^verbatim>\<open>None\<close> and
  \<^const>\<open>collect_duplicates\<close> is off.
\<close>

theorem timestamp_token_shares_slot:
  assumes "coerce line = Inr l" and "timestamp_region opts l = Some (ts, rest)"
    and "token_values ''timestamp'' (tokens opts rest 0) = vs" and "vs \<noteq> []"
    and "fs = token_loop opts rest 0 [(''timestamp'', ts)]"
  shows "map_of fs ''timestamp'' = Some (if collect_duplicates opts then PStr (last vs) else ts) \<and>
         length (filter (\<lambda>e. fst e = ''timestamp'') fs) = 1 \<and>
         has_kv fs = list_ex (\<lambda>t. fst t \<noteq> ''timestamp'') (tokens opts rest 0) \<and>
         parse_log_line opts line =
           Inr (if \<not> has_kv fs \<and> \<not> collect_duplicates opts \<and> ts = PNone then None
                else Some fs)"
proof -
  have F: "fs = foldl (store_token opts) [(''timestamp'', ts)] (tokens opts rest 0)"
    by (simp add: assms(5) token_loop_tokens)
  have m: "map_of fs ''timestamp'' = Some (if collect_duplicates opts then PStr (last vs) else ts)"
  proof (cases "collect_duplicates opts")
    case True
    from foldl_store_timestamp [OF True, of "[(''timestamp'', ts)]" "tokens opts rest 0"] assms(3,4) True
    show ?thesis by (simp add: F)
  next
    case False
    from foldl_store_first [OF False, of "[(''timestamp'', ts)]" "tokens opts rest 0" "''timestamp''"] False
    show ?thesis by (simp add: F)
  qed
  have d: "distinct (map fst fs)"
    unfolding F by (rule foldl_store_distinct) simp
  have "''timestamp'' \<in> fst ` set fs" by (simp add: F foldl_store_keys)
  from filter_key_one [OF d this] have one: "length (filter (\<lambda>e. fst e = ''timestamp'') fs) = 1" .
  have kv: "has_kv fs = list_ex (\<lambda>t. fst t \<noteq> ''timestamp'') (tokens opts rest 0)"
    unfolding F by (rule has_kv_tokens)
  from assms(1,2) m have "parse_log_line opts line =
           Inr (if \<not> has_kv fs \<and> \<not> collect_duplicates opts \<and> ts = PNone then None
                else Some fs)"
    by (auto simp: parse_log_line_text assms(5) [symmetric])
  with m one kv show ?thesis by blast
qed

theorem timestamp_token_shares_slot_witness:
  "parse_log_line default_options (PyStr ''                   Timestamp=x timestamp=y'') =
     Inr (Some [(''timestamp'', PStr ''y'')]) \<and>
   \<not> has_kv [(''timestamp'', PStr ''y'')]"
proof -
  have h1: "coerce (PyStr ''                   Timestamp=x timestamp=y'') =
              Inr ''                   Timestamp=x timestamp=y''"
    by (simp add: coerce_def)
  have h2: "timestamp_region default_options ''                   Timestamp=x timestamp=y'' =
              Some (PNone, ''Timestamp=x timestamp=y'')"
    by code_simp
  have h3: "token_values ''timestamp'' (tokens default_options ''Timestamp=x timestamp=y'' 0) =
              [''x'', ''y'']"
    by code_simp
  have h4: "[''x'', ''y''] \<noteq> []" by simp
  have h5: "[(''timestamp'', PStr ''y'')] =
              token_loop default_options ''Timestamp=x timestamp=y'' 0 [(''timestamp'', PNone)]"
    by code_simp
  have h6: "\<not> has_kv [(''timestamp'', PStr ''y'')]"
    by (simp add: has_kv_def)
  from timestamp_token_shares_slot [OF h1 h2 h3 h4 h5] h6
  show ?thesis by (simp add: default_options_def)
qed

section \<open>Malformed tokens\<close>

lemma skip_whitespace_eq:
  "skip_whitespace rest pos = pos + length (takeWhile isspace (drop pos rest))"
proof (induction rest pos rule: skip_whitespace.induct)
  case (1 rest pos)
  show ?case
  proof (cases "pos < length rest \<and> isspace (rest ! pos)")
    case True
    then have d: "drop pos rest = rest ! pos # drop (Suc pos) rest"
      by (simp add: Cons_nth_drop_Suc)
    from True "1.IH" have "skip_whitespace rest (pos + 1) =
        pos + 1 + length (takeWhile isspace (drop (pos + 1) rest))" by simp
    with True d show ?thesis by (subst skip_whitespace.simps) simp
  next
    case False
    show ?thesis
    proof (cases "pos < length rest")
      case True
      with False have "\<not> isspace (rest ! pos)" by simp
      moreover from True have "drop pos rest = rest ! pos # drop (Suc pos) rest"
        by (simp add: Cons_nth_drop_Suc)
      ultimately show ?thesis using False by (subst skip_whitespace.simps) simp
    next
      case f2: False
      then show ?thesis by (subst skip_whitespace.simps) simp
    qed
  qed
qed

lemma find_str_first:
  assumes "find_str s c start = Some i"
  shows "c \<notin> set (take (i - start) (drop start s))"
proof
  assume "c \<in> set (take (i - start) (drop start s))"
  then obtain j where j: "j < i - start" "j < length s - start" "s ! (start + j) = c"
    by (auto simp: in_set_conv_nth)
  from assms obtain n where n: "n < length [start..<length s]"
      "i = [start..<length s] ! n" "\<forall>m<n. s ! ([start..<length s] ! m) \<noteq> c"
    unfolding find_str_def find_Some_iff by blast
  from n(1,2) have i: "i = start + n" by simp
  with j(1) have "j < n" by simp
  with n(1,3) have "s ! ([start..<length s] ! j) \<noteq> c" by blast
  with j(2) have "s ! (start + j) \<noteq> c" by simp
  with j(3) show False by simp
qed

lemma find_str_None:
  assumes "find_str s c start = None"
  shows "c \<notin> set (drop start s)"
proof
  assume "c \<in> set (drop start s)"
  then obtain j where j: "j < length s - start" "s ! (start + j) = c"
    by (auto simp: in_set_conv_nth)
  from assms have "\<forall>x \<in> set [start..<length s]. s ! x \<noteq> c"
    unfolding find_str_def find_None_iff by blast
  with j(1) have "s ! (start + j) \<noteq> c" by simp
  with j(2) show False by simp
qed

lemma matched_prefix_record:
  assumes "coerce line = Inr l" and "TIMESTAMP_RE_match (take 19 l)"
  shows "\<exists>fs. parse_log_line opts line = Inr (Some fs)"
proof -
  note reg = timestamp_region_match [OF assms(2), of opts]
  define rest where "rest = lstrip (drop 19 (rstrip_chars l [CHR 0x0A]))"
  define F where "F = token_loop opts rest 0 [(''timestamp'', PStr (take 19 l))]"
  have F: "F = foldl (store_token opts) [(''timestamp'', PStr (take 19 l))] (tokens opts rest 0)"
    by (simp add: F_def token_loop_tokens)
  have "map_of F ''timestamp'' \<noteq> Some PNone"
  proof (cases "collect_duplicates opts")
    case True
    from foldl_store_timestamp [OF True, of "[(''timestamp'', PStr (take 19 l))]" "tokens opts rest 0"]
    show ?thesis by (simp add: F split: if_splits)
  next
    case False
    from foldl_store_first [OF False, of "[(''timestamp'', PStr (take 19 l))]" "tokens opts rest 0" "''timestamp''"]
    show ?thesis by (simp add: F)
  qed
  with assms(1) reg have "parse_log_line opts line = Inr (Some F)"
    by (simp add: parse_log_line_text F_def rest_def)
  then show ?thesis by blast
qed

text \<open>
  What the loop does where no token matches at \<open>pos\<close>: without a later space character
  (U+0020) it stops and the record stays as it is; otherwise it takes the text up to the
  next space character as the malformed token, goes on behind that space and the
  whitespace that follows it, and the tokens matched from there on reach the record.
  A line whose first 19 characters match the timestamp pattern gives a record, whatever
  its tokens are.
\<close>

lemma malformed_token_step:
  assumes "pos < length rest" and "TOKEN_RE_match rest pos = None"
  shows "(case find_str rest (CHR '' '') pos of
            None \<Rightarrow>
              CHR '' '' \<notin> set (drop pos rest) \<and>
              token_loop opts rest pos fs = fs
          | Some next_space \<Rightarrow>
              pos \<le> next_space \<and> next_space < length rest \<and>
              rest ! next_space = CHR '' '' \<and>
              CHR '' '' \<notin> set (take (next_space - pos) (drop pos rest)) \<and>
              skip_whitespace rest (next_space + 1) =
                next_space + 1 + length (takeWhile isspace (drop (next_space + 1) rest)) \<and>
              token_loop opts rest pos fs =
                token_loop opts rest (skip_whitespace rest (next_space + 1)) fs \<and>
              tokens opts rest pos = tokens opts rest (skip_whitespace rest (next_space + 1)) \<and>
              fst ` set (tokens opts rest (skip_whitespace rest (next_space + 1)))
                \<subseteq> fst ` set (token_loop opts rest pos fs)) \<and>
         (\<forall>line l. coerce line = Inr l \<and> TIMESTAMP_RE_match (take 19 l) \<longrightarrow>
            (\<exists>r. parse_log_line opts line = Inr (Some r)))"
proof -
  have line: "\<forall>line l. coerce line = Inr l \<and> TIMESTAMP_RE_match (take 19 l) \<longrightarrow>
            (\<exists>r. parse_log_line opts line = Inr (Some r))"
    using matched_prefix_record by blast
  show ?thesis
  proof (cases "find_str rest (CHR '' '') pos")
    case None
    from assms None have "token_loop opts rest pos fs = fs"
      by (simp add: token_loop.simps [of opts rest pos])
    with find_str_None [OF None] None line show ?thesis by simp
  next
    case (Some ns)
    from assms Some
    have a: "token_loop opts rest pos fs = token_loop opts rest (skip_whitespace rest (ns + 1)) fs"
      by (simp add: token_loop.simps [of opts rest pos])
    from assms Some
    have b: "tokens opts rest pos = tokens opts rest (skip_whitespace rest (ns + 1))"
      by (simp add: tokens.simps [of opts rest pos])
    have c: "fst ` set (tokens opts rest (skip_whitespace rest (ns + 1)))
                \<subseteq> fst ` set (token_loop opts rest pos fs)"
      unfolding token_loop_tokens foldl_store_keys b by blast
    from find_str_Some [OF Some] find_str_first [OF Some] skip_whitespace_eq [of rest "ns + 1"] a b c
      Some line
    show ?thesis by simp
  qed
qed

text \<open>
  Claim C8. A malformed token is the run of characters that are not whitespace, up to
  the next space or the end of the text; the loop goes on behind it and the whitespace
  that follows, the tokens matched after it reach the record, and it never makes the
  parser refuse a line whose timestamp region was accepted. The loop looks for the next
  space character with \<^verbatim>\<open>rest.find(" ", pos)\<close>, although everywhere else (the bareword of
  \<^verbatim>\<open>TOKEN_RE\<close>, \<^const>\<open>skip_whitespace\<close>, \<^const>\<open>lstrip\<close>) any whitespace ends a token. So
  behind a malformed token a tab does not end it: in \<^verbatim>\<open>bad<TAB>user=admin ip=1\<close> the token
  \<^verbatim>\<open>user=admin\<close> is dropped with \<^verbatim>\<open>bad\<close>, while behind the matched token \<^verbatim>\<open>a=1\<close> the same tab
  separates it; and the line of 19 spaces and \<^verbatim>\<open>bad<TAB>user=admin\<close>, whose blank timestamp
  region is accepted, is refused, while it gives a record with a space in place of the
  tab.
\<close>

theorem malformed_token_swallows_next_token:
  "parse_log_line default_options
     (PyStr (''2024-11-25 08:35:10 bad'' @ [CHR 0x09] @ ''user=admin ip=1'')) =
     Inr (Some [(''timestamp'', PStr ''2024-11-25 08:35:10''), (''ip'', PStr ''1'')]) \<and>
   parse_log_line default_options
     (PyStr (''2024-11-25 08:35:10 a=1'' @ [CHR 0x09] @ ''user=admin ip=1'')) =
     Inr (Some [(''timestamp'', PStr ''2024-11-25 08:35:10''), (''a'', PStr ''1''),
                (''user'', PStr ''admin''), (''ip'', PStr ''1'')]) \<and>
   timestamp_region default_options (''                   bad'' @ [CHR 0x09] @ ''user=admin'') =
     Some (PNone, ''bad'' @ [CHR 0x09] @ ''user=admin'') \<and>
   parse_log_line default_options
     (PyStr (''                   bad'' @ [CHR 0x09] @ ''user=admin'')) = Inr None \<and>
   parse_log_line default_options (PyStr ''                   bad user=admin'') =
     Inr (Some [(''timestamp'', PNone), (''user'', PStr ''admin'')])"
  by code_simp

section \<open>The aggregation pass\<close>

lemma store_values_ok:
  assumes "field_values_ok fs"
  shows "field_values_ok (store opts fs key val)"
  unfolding field_values_ok_def
proof (intro allI impI)
  fix k v
  assume a: "map_of (store opts fs key val) k = Some v \<and> k \<noteq> ''timestamp''"
  show "str_or_list v"
  proof (cases "k = key")
    case False
    with a assms show ?thesis
      by (auto simp: map_of_store_other field_values_ok_def)
  next
    case True
    show ?thesis
    proof (cases "collect_duplicates opts")
      case c: True
      from a True have kt: "key \<noteq> ''timestamp''" by simp
      from map_of_store_collect [OF c kt, of fs val] a True
      have v: "v = (case map_of fs key of
               None \<Rightarrow> PStr val
             | Some (PList xs) \<Rightarrow> PList (xs @ [PStr val])
             | Some old \<Rightarrow> PList [old, PStr val])" by simp
      show ?thesis
      proof (cases "map_of fs key")
        case None
        with v show ?thesis by (simp add: str_or_list_def)
      next
        case (Some old)
        with assms kt have "str_or_list old" by (auto simp: field_values_ok_def)
        with v Some show ?thesis
          by (cases old) (auto simp: str_or_list_def)
      qed
    next
      case c: False
      from map_of_store_first [OF c, of fs key val] a True assms
      show ?thesis
        by (auto simp: field_values_ok_def str_or_list_def split: option.splits)
    qed
  qed
qed

lemma foldl_store_values_ok:
  "field_values_ok fs \<Longrightarrow> field_values_ok (foldl (store_token opts) fs ts)"
  by (induction ts arbitrary: fs) (simp_all add: store_token_def store_values_ok)

lemma parse_log_line_Some:
  assumes "parse_log_line opts line = Inr (Some fs)"
  shows "\<exists>l ts rest. coerce line = Inr l \<and> timestamp_region opts l = Some (ts, rest) \<and>
           fs = token_loop opts rest 0 [(''timestamp'', ts)]"
proof (cases "coerce line")
  case (Inl e)
  with assms show ?thesis by (simp add: parse_log_line_def parse_try_def)
next
  case (Inr l)
  with assms show ?thesis
    by (cases "timestamp_region opts l") (auto simp: parse_log_line_text split: if_splits)
qed

lemma parsed_values:
  assumes "parse_log_line opts line = Inr (Some parsed)" and "k \<noteq> ''timestamp''"
  shows "list_all is_str (as_list (dict_get parsed k))"
proof -
  from parse_log_line_Some [OF assms(1)] obtain ts rest
    where "parsed = token_loop opts rest 0 [(''timestamp'', ts)]" by blast
  then have "parsed = foldl (store_token opts) [(''timestamp'', ts)] (tokens opts rest 0)"
    by (simp add: token_loop_tokens)
  moreover have "field_values_ok [(''timestamp'', ts)]" by (simp add: field_values_ok_def)
  ultimately have ok: "field_values_ok parsed" by (simp add: foldl_store_values_ok)
  show ?thesis
  proof (cases "map_of parsed k")
    case None
    then show ?thesis by (simp add: dict_get_def as_list_def)
  next
    case (Some v)
    with ok assms(2) have "str_or_list v" by (auto simp: field_values_ok_def)
    with Some show ?thesis
      by (cases v) (auto simp: dict_get_def as_list_def str_or_list_def)
  qed
qed

lemma upper_all_strings: "list_all is_str vs \<Longrightarrow> upper_all vs = Inr (map upper (strings vs))"
proof (induction vs)
  case Nil
  then show ?case by (simp add: strings_def)
next
  case (Cons v vs)
  then show ?case by (cases v) (auto simp: strings_def)
qed

lemma count_of_incr:
  "count_of (incr ctr k) u = (if u = k then count_of ctr k + 1 else count_of ctr u)"
  by (simp add: count_of_def incr_def AList.update_conv')

lemma count_values_strings:
  "list_all is_str vs \<Longrightarrow>
     \<exists>c. count_values ctr vs = Inr c \<and>
         (\<forall>u. count_of c u =
                count_of ctr u + int (count_list (filter (\<lambda>s. s \<noteq> []) (strings vs)) u))"
proof (induction vs arbitrary: ctr)
  case Nil
  then show ?case by (simp add: strings_def)
next
  case (Cons v vs)
  from Cons.prems obtain s where v: "v = PStr s" by (cases v) auto
  from Cons.prems have vs: "list_all is_str vs" by simp
  show ?case
  proof (cases "s = []")
    case True
    with Cons.IH [OF vs, of ctr] v show ?thesis by (simp add: strings_def)
  next
    case False
    from Cons.IH [OF vs, of "incr ctr s"] obtain c where
      c: "count_values (incr ctr s) vs = Inr c"
         "\<forall>u. count_of c u =
            count_of (incr ctr s) u + int (count_list (filter (\<lambda>s. s \<noteq> []) (strings vs)) u)"
      by blast
    from c v False show ?thesis
      by (auto simp: strings_def count_of_incr)
  qed
qed

lemma count_values_none:
  "list_all is_str vs \<Longrightarrow> filter (\<lambda>s. s \<noteq> []) (strings vs) = [] \<Longrightarrow> count_values ctr vs = Inr ctr"
proof (induction vs)
  case Nil
  then show ?case by simp
next
  case (Cons v vs)
  then show ?case by (cases v) (auto simp: strings_def split: if_splits)
qed

lemma parse_log_line_returns: "\<exists>r. parse_log_line opts line = Inr r"
  by (cases "parse_try opts line") (simp_all add: parse_log_line_def)

lemma list_ex_upper:
  "list_ex (\<lambda>s. s = FAIL) (map upper xs) = list_ex (\<lambda>s. upper s = FAIL) xs"
  by (induction xs) auto

lemma count_line_parsed:
  assumes "parse_log_line count_options line = Inr (Some parsed)"
  shows "\<exists>u i. count_values (users_ctr a) (as_list (dict_get parsed ''user'')) = Inr u \<and>
               count_values (ips_ctr a) (as_list (dict_get parsed ''ip'')) = Inr i \<and>
               count_line a line =
                 Inr (if list_ex (\<lambda>s. upper s = FAIL) (strings (as_list (dict_get parsed ''status'')))
                      then a\<lparr>users_ctr := u, ips_ctr := i, seen_n := seen_n a + 1,
                              counted_n := counted_n a + 1\<rparr>
                      else a\<lparr>seen_n := seen_n a + 1\<rparr>)"
proof -
  have s: "upper_all (as_list (dict_get parsed ''status'')) =
             Inr (map upper (strings (as_list (dict_get parsed ''status''))))"
    by (rule upper_all_strings) (rule parsed_values [OF assms], simp)
  have "list_all is_str (as_list (dict_get parsed ''user''))"
    by (rule parsed_values [OF assms]) simp
  from count_values_strings [OF this, of "users_ctr a"] obtain u
    where u: "count_values (users_ctr a) (as_list (dict_get parsed ''user'')) = Inr u" by blast
  have "list_all is_str (as_list (dict_get parsed ''ip''))"
    by (rule parsed_values [OF assms]) simp
  from count_values_strings [OF this, of "ips_ctr a"] obtain i
    where i: "count_values (ips_ctr a) (as_list (dict_get parsed ''ip'')) = Inr i" by blast
  from assms s u i have "count_line a line =
                 Inr (if list_ex (\<lambda>s. upper s = FAIL) (strings (as_list (dict_get parsed ''status'')))
                      then a\<lparr>users_ctr := u, ips_ctr := i, seen_n := seen_n a + 1,
                              counted_n := counted_n a + 1\<rparr>
                      else a\<lparr>seen_n := seen_n a + 1\<rparr>)"
    by (simp add: count_line_def list_ex_upper)
  with u i show ?thesis by blast
qed

text \<open>
  The body of the loop on a line that is parsed, from any state of the counters.
\<close>

lemma count_line_step:
  assumes "parse_log_line count_options line = Inr (Some parsed)"
  shows "list_all is_str (as_list (dict_get parsed ''status'')) \<and>
         list_all is_str (as_list (dict_get parsed ''user'')) \<and>
         list_all is_str (as_list (dict_get parsed ''ip'')) \<and>
         (\<exists>a'. count_line a line = Inr a' \<and>
            seen_n a' = seen_n a + 1 \<and> skipped_n a' = skipped_n a \<and>
            (if list_ex (\<lambda>s. upper s = FAIL) (strings (as_list (dict_get parsed ''status'')))
             then counted_n a' = counted_n a + 1 \<and>
               (\<forall>u. count_of (users_ctr a') u =
                  count_of (users_ctr a) u +
                  int (count_list
                         (filter (\<lambda>s. s \<noteq> []) (strings (as_list (dict_get parsed ''user'')))) u)) \<and>
               (\<forall>i. count_of (ips_ctr a') i =
                  count_of (ips_ctr a) i +
                  int (count_list
                         (filter (\<lambda>s. s \<noteq> []) (strings (as_list (dict_get parsed ''ip'')))) i))
             else counted_n a' = counted_n a \<and> users_ctr a' = users_ctr a \<and>
               ips_ctr a' = ips_ctr a))"
proof -
  have st: "list_all is_str (as_list (dict_get parsed ''status''))"
    by (rule parsed_values [OF assms]) simp
  have us: "list_all is_str (as_list (dict_get parsed ''user''))"
    by (rule parsed_values [OF assms]) simp
  have ip: "list_all is_str (as_list (dict_get parsed ''ip''))"
    by (rule parsed_values [OF assms]) simp
  from count_line_parsed [OF assms, of a] obtain u i where
    u: "count_values (users_ctr a) (as_list (dict_get parsed ''user'')) = Inr u" and
    i: "count_values (ips_ctr a) (as_list (dict_get parsed ''ip'')) = Inr i" and
    c: "count_line a line =
          Inr (if list_ex (\<lambda>s. upper s = FAIL) (strings (as_list (dict_get parsed ''status'')))
               then a\<lparr>users_ctr := u, ips_ctr := i, seen_n := seen_n a + 1,
                       counted_n := counted_n a + 1\<rparr>
               else a\<lparr>seen_n := seen_n a + 1\<rparr>)"
    by blast
  from count_values_strings [OF us, of "users_ctr a"] u
  have cu: "\<forall>x. count_of u x = count_of (users_ctr a) x +
              int (count_list (filter (\<lambda>s. s \<noteq> []) (strings (as_list (dict_get parsed ''user'')))) x)"
    by simp
  from count_values_strings [OF ip, of "ips_ctr a"] i
  have ci: "\<forall>x. count_of i x = count_of (ips_ctr a) x +
              int (count_list (filter (\<lambda>s. s \<noteq> []) (strings (as_list (dict_get parsed ''ip'')))) x)"
    by simp
  from st us ip c cu ci show ?thesis by simp
qed

lemma count_line_counts:
  "\<exists>a'. count_line a line = Inr a' \<and>
        seen_n a' + skipped_n a' = seen_n a + skipped_n a + 1 \<and>
        seen_n a \<le> seen_n a' \<and>
        counted_n a' - counted_n a \<le> seen_n a' - seen_n a"
proof -
  from parse_log_line_returns [of count_options line] obtain r
    where r: "parse_log_line count_options line = Inr r" ..
  show ?thesis
  proof (cases r)
    case None
    with r show ?thesis by (simp add: count_line_def)
  next
    case (Some parsed)
    with r have "parse_log_line count_options line = Inr (Some parsed)" by simp
    from count_line_parsed [OF this, of a] show ?thesis by auto
  qed
qed

lemma count_loop_counts:
  "\<exists>a'. count_loop a lines = Inr a' \<and>
        seen_n a' + skipped_n a' = seen_n a + skipped_n a + int (length lines) \<and>
        counted_n a' - counted_n a \<le> seen_n a' - seen_n a"
proof (induction lines arbitrary: a)
  case Nil
  then show ?case by simp
next
  case (Cons line lines)
  from count_line_counts [of a line] obtain a1 where
    a1: "count_line a line = Inr a1"
        "seen_n a1 + skipped_n a1 = seen_n a + skipped_n a + 1"
        "counted_n a1 - counted_n a \<le> seen_n a1 - seen_n a" by blast
  from Cons.IH [of a1] obtain a2 where
    a2: "count_loop a1 lines = Inr a2"
        "seen_n a2 + skipped_n a2 = seen_n a1 + skipped_n a1 + int (length lines)"
        "counted_n a2 - counted_n a1 \<le> seen_n a2 - seen_n a1" by blast
  from a1 a2 show ?case by simp
qed

text \<open>
  Claim C6. For every sequence of lines \<^const>\<open>count_failed_logins\<close> returns a snapshot,
  in which \<^verbatim>\<open>seen + skipped\<close> is the number of lines and \<^verbatim>\<open>counted\<close> is at most
  \<^verbatim>\<open>seen\<close>.
\<close>

theorem seen_skipped_counted:
  "\<exists>st. count_failed_logins lines = Inr st \<and>
         seen st + skipped st = int (length lines) \<and> counted st \<le> seen st"
proof -
  from count_loop_counts
    [of "\<lparr>users_ctr = [], ips_ctr = [], seen_n = 0, counted_n = 0, skipped_n = 0\<rparr>" lines]
  show ?thesis by (auto simp: count_failed_logins_def)
qed

theorem seen_skipped_counted_witness:
  "\<exists>st. count_failed_logins
          [PyStr ''2024-11-25 08:30:12 status=FAIL user=admin'', PyStr '''',
           PyStr ''2024-11-25 08:42:30 status=SUCCESS user=alice''] = Inr st \<and>
        seen st + skipped st = 3 \<and> counted st \<le> seen st"
  using seen_skipped_counted
    [of "[PyStr ''2024-11-25 08:30:12 status=FAIL user=admin'', PyStr '''',
          PyStr ''2024-11-25 08:42:30 status=SUCCESS user=alice'']"]
  by simp

text \<open>
  Claim C7. In the snapshot that \<^const>\<open>count_failed_logins\<close> returns, \<^verbatim>\<open>total_fail\<close> is the
  sum of the counts of the users when the map of the users is not empty, and the sum of
  the counts of the addresses otherwise.
\<close>

theorem total_fail_fallback:
  "\<exists>st. count_failed_logins lines = Inr st \<and>
         total_fail st =
           (if users st \<noteq> [] then sum_list (map snd (users st))
            else sum_list (map snd (ips st)))"
proof -
  from count_loop_counts
    [of "\<lparr>users_ctr = [], ips_ctr = [], seen_n = 0, counted_n = 0, skipped_n = 0\<rparr>" lines]
  show ?thesis by (auto simp: count_failed_logins_def)
qed

theorem total_fail_fallback_witness:
  "\<exists>st. count_failed_logins [PyStr ''2024-11-25 08:30:12 status=FAIL ip=10.0.0.1''] = Inr st \<and>
        total_fail st =
          (if users st \<noteq> [] then sum_list (map snd (users st))
           else sum_list (map snd (ips st)))"
  using total_fail_fallback [of "[PyStr ''2024-11-25 08:30:12 status=FAIL ip=10.0.0.1'']"]
  by simp

lemma count_line_skipped:
  "count_line (a\<lparr>skipped_n := skipped_n a + 1\<rparr>) line =
     (case count_line a line of
        Inl e \<Rightarrow> Inl e
      | Inr a' \<Rightarrow> Inr (a'\<lparr>skipped_n := skipped_n a' + 1\<rparr>))"
  by (simp add: count_line_def split: sum.splits option.splits)

lemma count_loop_skipped:
  "count_loop (a\<lparr>skipped_n := skipped_n a + 1\<rparr>) lines =
     (case count_loop a lines of
        Inl e \<Rightarrow> Inl e
      | Inr a' \<Rightarrow> Inr (a'\<lparr>skipped_n := skipped_n a' + 1\<rparr>))"
proof (induction lines arbitrary: a)
  case Nil
  then show ?case by simp
next
  case (Cons line lines)
  then show ?case by (simp add: count_line_skipped split: sum.splits)
qed

lemma count_loop_append:
  "count_loop a (xs @ ys) =
     (case count_loop a xs of Inl e \<Rightarrow> Inl e | Inr a' \<Rightarrow> count_loop a' ys)"
  by (induction xs arbitrary: a) (simp_all split: sum.splits)

text \<open>
  Claim C2. \<^const>\<open>count_failed_logins\<close> on a sequence of lines and on the same sequence
  with one more line that \<^const>\<open>parse_log_line\<close> parses: nothing is raised (the values
  under \<^verbatim>\<open>status\<close>, \<^verbatim>\<open>user\<close> and \<^verbatim>\<open>ip\<close> are strings), and the line is counted as seen.
  When no value under \<^verbatim>\<open>status\<close> is \<^verbatim>\<open>FAIL\<close> in upper case, \<^verbatim>\<open>counted\<close> and the two
  frequency maps are the same. When one is, \<^verbatim>\<open>counted\<close> is greater by one, and each value
  under \<^verbatim>\<open>user\<close> that is not empty adds one to the counter of that user, and so for
  \<^verbatim>\<open>ip\<close>: the counter of a name is greater by the number of times the name occurs among
  the values of the line that are not empty. The loop runs from left to right, so this
  is what it does with a line at any place of a sequence; the last part says the same of
  the body of the loop, from any state of the counters.
\<close>

theorem count_failed_logins_line_effect:
  assumes "parse_log_line count_options line = Inr (Some parsed)"
  shows "list_all is_str (as_list (dict_get parsed ''status'')) \<and>
         list_all is_str (as_list (dict_get parsed ''user'')) \<and>
         list_all is_str (as_list (dict_get parsed ''ip'')) \<and>
         (\<exists>st st'. count_failed_logins lines = Inr st \<and>
            count_failed_logins (lines @ [line]) = Inr st' \<and>
            seen st' = seen st + 1 \<and> skipped st' = skipped st \<and>
            (if list_ex (\<lambda>s. upper s = FAIL) (strings (as_list (dict_get parsed ''status'')))
             then counted st' = counted st + 1 \<and>
               (\<forall>u. count_of (users st') u =
                  count_of (users st) u +
                  int (count_list
                         (filter (\<lambda>s. s \<noteq> []) (strings (as_list (dict_get parsed ''user'')))) u)) \<and>
               (\<forall>i. count_of (ips st') i =
                  count_of (ips st) i +
                  int (count_list
                         (filter (\<lambda>s. s \<noteq> []) (strings (as_list (dict_get parsed ''ip'')))) i))
             else counted st' = counted st \<and> users st' = users st \<and> ips st' = ips st)) \<and>
         (\<forall>a. \<exists>a'. count_line a line = Inr a' \<and>
            seen_n a' = seen_n a + 1 \<and> skipped_n a' = skipped_n a \<and>
            (if list_ex (\<lambda>s. upper s = FAIL) (strings (as_list (dict_get parsed ''status'')))
             then counted_n a' = counted_n a + 1 \<and>
               (\<forall>u. count_of (users_ctr a') u =
                  count_of (users_ctr a) u +
                  int (count_list
                         (filter (\<lambda>s. s \<noteq> []) (strings (as_list (dict_get parsed ''user'')))) u)) \<and>
               (\<forall>i. count_of (ips_ctr a') i =
                  count_of (ips_ctr a) i +
                  int (count_list
                         (filter (\<lambda>s. s \<noteq> []) (strings (as_list (dict_get parsed ''ip'')))) i))
             else counted_n a' = counted_n a \<and> users_ctr a' = users_ctr a \<and>
               ips_ctr a' = ips_ctr a))"
proof -
  define a0 where "a0 = \<lparr>users_ctr = [], ips_ctr = [], seen_n = 0, counted_n = 0, skipped_n = 0\<rparr>"
  from count_loop_counts [of a0 lines] obtain a1 where a1: "count_loop a0 lines = Inr a1" by blast
  from count_line_step [OF assms, of a1] obtain a2 where
    a2: "count_line a1 line = Inr a2" and
    s: "seen_n a2 = seen_n a1 + 1" "skipped_n a2 = skipped_n a1" and
    e: "if list_ex (\<lambda>s. upper s = FAIL) (strings (as_list (dict_get parsed ''status'')))
        then counted_n a2 = counted_n a1 + 1 \<and>
          (\<forall>u. count_of (users_ctr a2) u =
             count_of (users_ctr a1) u +
             int (count_list
                    (filter (\<lambda>s. s \<noteq> []) (strings (as_list (dict_get parsed ''user'')))) u)) \<and>
          (\<forall>i. count_of (ips_ctr a2) i =
             count_of (ips_ctr a1) i +
             int (count_list
                    (filter (\<lambda>s. s \<noteq> []) (strings (as_list (dict_get parsed ''ip'')))) i))
        else counted_n a2 = counted_n a1 \<and> users_ctr a2 = users_ctr a1 \<and>
          ips_ctr a2 = ips_ctr a1"
    by blast
  from a1 a2 have l2: "count_loop a0 (lines @ [line]) = Inr a2"
    by (simp add: count_loop_append)
  define mk where "mk = (\<lambda>a :: agg. \<lparr>users = users_ctr a, ips = ips_ctr a,
               total_fail = (if users_ctr a \<noteq> [] then sum_list (map snd (users_ctr a))
                             else sum_list (map snd (ips_ctr a))),
               seen = seen_n a, counted = counted_n a, skipped = skipped_n a\<rparr>)"
  have c1: "count_failed_logins lines = Inr (mk a1)"
    using a1 by (simp add: count_failed_logins_def a0_def mk_def)
  have c2: "count_failed_logins (lines @ [line]) = Inr (mk a2)"
    using l2 by (simp add: count_failed_logins_def a0_def mk_def)
  have lifted: "\<exists>st st'. count_failed_logins lines = Inr st \<and>
            count_failed_logins (lines @ [line]) = Inr st' \<and>
            seen st' = seen st + 1 \<and> skipped st' = skipped st \<and>
            (if list_ex (\<lambda>s. upper s = FAIL) (strings (as_list (dict_get parsed ''status'')))
             then counted st' = counted st + 1 \<and>
               (\<forall>u. count_of (users st') u =
                  count_of (users st) u +
                  int (count_list
                         (filter (\<lambda>s. s \<noteq> []) (strings (as_list (dict_get parsed ''user'')))) u)) \<and>
               (\<forall>i. count_of (ips st') i =
                  count_of (ips st) i +
                  int (count_list
                         (filter (\<lambda>s. s \<noteq> []) (strings (as_list (dict_get parsed ''ip'')))) i))
             else counted st' = counted st \<and> users st' = users st \<and> ips st' = ips st)"
  proof (intro exI conjI)
    show "count_failed_logins lines = Inr (mk a1)" by (rule c1)
    show "count_failed_logins (lines @ [line]) = Inr (mk a2)" by (rule c2)
    show "seen (mk a2) = seen (mk a1) + 1" using s by (simp add: mk_def)
    show "skipped (mk a2) = skipped (mk a1)" using s by (simp add: mk_def)
    show "if list_ex (\<lambda>s. upper s = FAIL) (strings (as_list (dict_get parsed ''status'')))
          then counted (mk a2) = counted (mk a1) + 1 \<and>
            (\<forall>u. count_of (users (mk a2)) u =
               count_of (users (mk a1)) u +
               int (count_list
                      (filter (\<lambda>s. s \<noteq> []) (strings (as_list (dict_get parsed ''user'')))) u)) \<and>
            (\<forall>i. count_of (ips (mk a2)) i =
               count_of (ips (mk a1)) i +
               int (count_list
                      (filter (\<lambda>s. s \<noteq> []) (strings (as_list (dict_get parsed ''ip'')))) i))
          else counted (mk a2) = counted (mk a1) \<and> users (mk a2) = users (mk a1) \<and>
            ips (mk a2) = ips (mk a1)"
      using e by (simp add: mk_def)
  qed
  have step: "\<forall>a. \<exists>a'. count_line a line = Inr a' \<and>
            seen_n a' = seen_n a + 1 \<and> skipped_n a' = skipped_n a \<and>
            (if list_ex (\<lambda>s. upper s = FAIL) (strings (as_list (dict_get parsed ''status'')))
             then counted_n a' = counted_n a + 1 \<and>
               (\<forall>u. count_of (users_ctr a') u =
                  count_of (users_ctr a) u +
                  int (count_list
                         (filter (\<lambda>s. s \<noteq> []) (strings (as_list (dict_get parsed ''user'')))) u)) \<and>
               (\<forall>i. count_of (ips_ctr a') i =
                  count_of (ips_ctr a) i +
                  int (count_list
                         (filter (\<lambda>s. s \<noteq> []) (strings (as_list (dict_get parsed ''ip'')))) i))
             else counted_n a' = counted_n a \<and> users_ctr a' = users_ctr a \<and>
               ips_ctr a' = ips_ctr a)"
    using count_line_step [OF assms] by blast
  from count_line_step [OF assms, of a0] lifted step show ?thesis by blast
qed

theorem count_failed_logins_line_effect_witness:
  "\<exists>st st'.
     count_failed_logins
       [PyStr ''2024-11-25 08:30:12 status=FAIL user=root ip=1.2.3.4'', PyStr ''''] = Inr st \<and>
     count_failed_logins
       [PyStr ''2024-11-25 08:30:12 status=FAIL user=root ip=1.2.3.4'', PyStr '''',
        PyStr ''2024-11-25 08:30:18 status=fail user=root user=admin user=root ip=1.2.3.4''] =
       Inr st' \<and>
     seen st = 1 \<and> seen st' = 2 \<and> skipped st = 1 \<and> skipped st' = 1 \<and>
     counted st = 1 \<and> counted st' = 2 \<and>
     count_of (users st) ''root'' = 1 \<and> count_of (users st') ''root'' = 3 \<and>
     count_of (users st') ''admin'' = 1 \<and>
     count_of (ips st) ''1.2.3.4'' = 1 \<and> count_of (ips st') ''1.2.3.4'' = 2"
proof -
  define parsed where "parsed =
    [(''timestamp'', PStr ''2024-11-25 08:30:18''), (''status'', PStr ''fail''),
     (''user'', PList [PStr ''root'', PStr ''admin'', PStr ''root'']),
     (''ip'', PStr ''1.2.3.4'')]"
  have h: "parse_log_line count_options
             (PyStr ''2024-11-25 08:30:18 status=fail user=root user=admin user=root ip=1.2.3.4'') =
           Inr (Some parsed)"
    unfolding parsed_def by code_simp
  have f: "list_ex (\<lambda>s. upper s = FAIL) (strings (as_list (dict_get parsed ''status'')))"
    unfolding parsed_def by code_simp
  have u: "filter (\<lambda>s. s \<noteq> []) (strings (as_list (dict_get parsed ''user''))) =
             [''root'', ''admin'', ''root'']"
    unfolding parsed_def by code_simp
  have i: "filter (\<lambda>s. s \<noteq> []) (strings (as_list (dict_get parsed ''ip''))) = [''1.2.3.4'']"
    unfolding parsed_def by code_simp
  have b: "count_failed_logins
       [PyStr ''2024-11-25 08:30:12 status=FAIL user=root ip=1.2.3.4'', PyStr ''''] =
       Inr \<lparr>users = [(''root'', 1)], ips = [(''1.2.3.4'', 1)], total_fail = 1, seen = 1,
             counted = 1, skipped = 1\<rparr>"
    by code_simp
  from count_failed_logins_line_effect [OF h,
      of "[PyStr ''2024-11-25 08:30:12 status=FAIL user=root ip=1.2.3.4'', PyStr '''']"] f u i b
  show ?thesis by (auto simp: count_of_def)
qed

lemma blank_line_parse:
  assumes "coerce line = Inr l" and "list_all isspace l"
  shows "parse_log_line opts line = Inr None"
  using assms by (simp add: parse_log_line_text timestamp_region_blank)

text \<open>
  Claim C9. As stated, a line that is empty or all whitespace gives \<^verbatim>\<open>None\<close> and changes
  no counter of the snapshot, \<^verbatim>\<open>skipped\<close> among them. The loop counts every line that the
  parser refuses as skipped, this one too. What holds: such a line gives \<^verbatim>\<open>None\<close>, and
  with the line anywhere in the sequence the snapshot is the one without it but for
  \<^verbatim>\<open>skipped\<close>, which is greater by one: the two frequency maps, \<^verbatim>\<open>total_fail\<close>, \<^verbatim>\<open>seen\<close>
  and \<^verbatim>\<open>counted\<close> are the same.
\<close>

theorem blank_line_only_skipped:
  assumes "coerce line = Inr l" and "list_all isspace l"
  shows "parse_log_line opts line = Inr None \<and>
         (\<exists>st. count_failed_logins (xs @ ys) = Inr st \<and>
               count_failed_logins (xs @ line # ys) = Inr (st\<lparr>skipped := skipped st + 1\<rparr>))"
proof -
  define a0 where "a0 = \<lparr>users_ctr = [], ips_ctr = [], seen_n = 0, counted_n = 0, skipped_n = 0\<rparr>"
  from count_loop_counts [of a0 xs] obtain a1 where a1: "count_loop a0 xs = Inr a1" by blast
  from count_loop_counts [of a1 ys] obtain a2 where a2: "count_loop a1 ys = Inr a2" by blast
  have "count_line a1 line = Inr (a1\<lparr>skipped_n := skipped_n a1 + 1\<rparr>)"
    by (simp add: count_line_def blank_line_parse [OF assms])
  with a1 a2 have w: "count_loop a0 (xs @ line # ys) = Inr (a2\<lparr>skipped_n := skipped_n a2 + 1\<rparr>)"
    by (simp add: count_loop_append count_loop_skipped)
  from a1 a2 have wo: "count_loop a0 (xs @ ys) = Inr a2"
    by (simp add: count_loop_append)
  from w wo blank_line_parse [OF assms, of opts] show ?thesis
    by (simp add: count_failed_logins_def a0_def)
qed

theorem blank_line_only_skipped_witness:
  "parse_log_line default_options (PyStr ''   '') = Inr None \<and>
   (\<exists>st. count_failed_logins
           [PyStr ''2024-11-25 08:30:12 status=FAIL user=admin'',
            PyStr ''2024-11-25 08:42:30 status=SUCCESS user=alice''] = Inr st \<and>
         count_failed_logins
           [PyStr ''2024-11-25 08:30:12 status=FAIL user=admin'', PyStr ''   '',
            PyStr ''2024-11-25 08:42:30 status=SUCCESS user=alice''] =
           Inr (st\<lparr>skipped := skipped st + 1\<rparr>))"
proof -
  have h1: "coerce (PyStr ''   '') = Inr ''   ''" by (simp add: coerce_def)
  have h2: "list_all isspace ''   ''" by (simp add: isspace_def)
  from blank_line_only_skipped [OF h1 h2, of default_options
      "[PyStr ''2024-11-25 08:30:12 status=FAIL user=admin'']"
      "[PyStr ''2024-11-25 08:42:30 status=SUCCESS user=alice'']"]
  show ?thesis by simp
qed

text \<open>
  One line of three spaces: \<^verbatim>\<open>skipped\<close> is 1, and 0 without the line.
\<close>

theorem blank_line_counted_as_skipped:
  "list_all isspace ''   '' \<and>
   parse_log_line count_options (PyStr ''   '') = Inr None \<and>
   count_failed_logins [PyStr ''   ''] =
     Inr \<lparr>users = [], ips = [], total_fail = 0, seen = 0, counted = 0, skipped = 1\<rparr> \<and>
   count_failed_logins [] =
     Inr \<lparr>users = [], ips = [], total_fail = 0, seen = 0, counted = 0, skipped = 0\<rparr>"
  by code_simp

end
